theory Spec2Isabelle
  imports Complex_Main
begin

section \<open>JavaScript values used by the messaging module\<close>

text \<open>
  The module (\<^verbatim>\<open>R1Messaging\<close>) builds a flat envelope, serialises it with
  \<^verbatim>\<open>JSON.stringify\<close> and hands it to the host; inbound, it decodes the \<^verbatim>\<open>data\<close>
  field of a delivery with \<^verbatim>\<open>JSON.parse\<close> and fans the result out to the registered
  handlers. The strings the program handles (a message, the text handed to the transport,
  the \<^verbatim>\<open>data\<close> field) are modelled as \<^typ>\<open>string\<close>: code units up to \<^verbatim>\<open>0xFF\<close>.
  The strings inside a decoded document are lists of code units as numbers, since an
  escape in the text can name any code unit up to \<^verbatim>\<open>0xFFFF\<close>; \<open>units\<close> takes a string
  of the program to this form. A JSON document is a value of \<open>json\<close>; \<^verbatim>\<open>undefined\<close>
  is \<open>None\<close> of \<open>json option\<close>. A number is kept as the exact decimal value of its
  literal (the engine rounds it to a double), an object as its properties in the order
  in which the text first names them.
\<close>

type_synonym code_units = "nat list"

definition units :: "string \<Rightarrow> code_units" where
  "units s = map of_char s"

datatype json =
    JNull
  | JBool bool
  | JNumber rat
  | JString code_units
  | JArray "json list"
  | JObject "(code_units \<times> json) list"

datatype exn =
    Error string
  | TypeError
  | SyntaxError

definition dquote :: char where
  "dquote = CHR 0x22"

definition backslash :: char where
  "backslash = CHR 0x5C"

subsection \<open>\<^verbatim>\<open>JSON.stringify\<close> on strings (QuoteJSONString)\<close>

definition hex_digit :: "nat \<Rightarrow> char" where
  "hex_digit n = (if n < 10 then char_of (48 + n) else char_of (87 + n))"

definition escape_char :: "char \<Rightarrow> string" where
  "escape_char c =
     (if c = dquote then [backslash, dquote]
      else if c = backslash then [backslash, backslash]
      else if c = CHR 0x08 then [backslash, CHR ''b'']
      else if c = CHR 0x0C then [backslash, CHR ''f'']
      else if c = CHR 0x0A then [backslash, CHR ''n'']
      else if c = CHR 0x0D then [backslash, CHR ''r'']
      else if c = CHR 0x09 then [backslash, CHR ''t'']
      else if (of_char c :: nat) < 32 then
        [backslash, CHR ''u'', CHR ''0'', CHR ''0'',
         hex_digit (of_char c div 16), hex_digit (of_char c mod 16)]
      else [c])"

definition quote :: "string \<Rightarrow> string" where
  "quote s = dquote # concat (map escape_char s) @ [dquote]"

subsection \<open>\<^verbatim>\<open>JSON.parse\<close>\<close>

definition is_ws :: "char \<Rightarrow> bool" where
  "is_ws c \<longleftrightarrow> c = CHR 0x20 \<or> c = CHR 0x09 \<or> c = CHR 0x0A \<or> c = CHR 0x0D"

definition skip_ws :: "string \<Rightarrow> string" where
  "skip_ws = dropWhile is_ws"

definition is_digit :: "char \<Rightarrow> bool" where
  "is_digit c \<longleftrightarrow> (48::nat) \<le> of_char c \<and> (of_char c :: nat) \<le> 57"

definition hex_val :: "char \<Rightarrow> nat option" where
  "hex_val c =
     (let n = (of_char c :: nat) in
      if 48 \<le> n \<and> n \<le> 57 then Some (n - 48)
      else if 97 \<le> n \<and> n \<le> 102 then Some (n - 87)
      else if 65 \<le> n \<and> n \<le> 70 then Some (n - 55)
      else None)"

text \<open>
  \<open>unicode_escape a b c d\<close> is the code unit of an escape written as a backslash, the
  letter u and the four hexadecimal digits \<open>a b c d\<close>: any value up to \<^verbatim>\<open>0xFFFF\<close>.
\<close>

definition unicode_escape :: "char \<Rightarrow> char \<Rightarrow> char \<Rightarrow> char \<Rightarrow> nat option" where
  "unicode_escape a b c d =
     (case (hex_val a, hex_val b, hex_val c, hex_val d) of
        (Some h3, Some h2, Some h1, Some h0) \<Rightarrow> Some (((h3 * 16 + h2) * 16 + h1) * 16 + h0)
      | _ \<Rightarrow> None)"

definition simple_escape :: "char \<Rightarrow> char option" where
  "simple_escape e =
     (if e = dquote then Some dquote
      else if e = backslash then Some backslash
      else if e = CHR ''/'' then Some (CHR ''/'')
      else if e = CHR ''b'' then Some (CHR 0x08)
      else if e = CHR ''f'' then Some (CHR 0x0C)
      else if e = CHR ''n'' then Some (CHR 0x0A)
      else if e = CHR ''r'' then Some (CHR 0x0D)
      else if e = CHR ''t'' then Some (CHR 0x09)
      else None)"

definition cons_unit :: "nat \<Rightarrow> (code_units \<times> string) option \<Rightarrow> (code_units \<times> string) option" where
  "cons_unit u r = (case r of None \<Rightarrow> None | Some (s, rest) \<Rightarrow> Some (u # s, rest))"

text \<open>
  \<open>parse_chars\<close> reads the characters of a string literal after its opening quote,
  up to and including the closing quote, and returns the decoded text with the rest of
  the input.
\<close>

fun parse_chars :: "string \<Rightarrow> (code_units \<times> string) option" where
  "parse_chars [] = None"
| "parse_chars (c # cs) =
     (if c = dquote then Some ([], cs)
      else if c = backslash then
        (case cs of
           [] \<Rightarrow> None
         | e # es \<Rightarrow>
             if e = CHR ''u'' then
               (case es of
                  h3 # h2 # h1 # h0 # rest \<Rightarrow>
                    (case unicode_escape h3 h2 h1 h0 of
                       None \<Rightarrow> None
                     | Some u \<Rightarrow> cons_unit u (parse_chars rest))
                | _ \<Rightarrow> None)
             else
               (case simple_escape e of
                  None \<Rightarrow> None
                | Some u \<Rightarrow> cons_unit (of_char u) (parse_chars es)))
      else if (of_char c :: nat) < 32 then None
      else cons_unit (of_char c) (parse_chars cs))"

definition digit_value :: "string \<Rightarrow> nat" where
  "digit_value ds = foldl (\<lambda>n c. 10 * n + (of_char c - 48)) 0 ds"

text \<open>
  A number literal: an optional minus sign, an integer part without a leading zero
  (unless it is the single digit zero), an optional fraction and an optional exponent.
\<close>

definition parse_exponent :: "string \<Rightarrow> (int \<times> string) option" where
  "parse_exponent s =
     (case s of
        [] \<Rightarrow> Some (0, s)
      | c # cs \<Rightarrow>
          if c = CHR ''e'' \<or> c = CHR ''E'' then
            (let (neg, ds) =
                   (case cs of
                      [] \<Rightarrow> (False, cs)
                    | g # gs \<Rightarrow>
                        if g = CHR ''-'' then (True, gs)
                        else if g = CHR ''+'' then (False, gs)
                        else (False, cs));
                 ep = takeWhile is_digit ds
             in if ep = [] then None
                else Some ((if neg then - int (digit_value ep) else int (digit_value ep)),
                           dropWhile is_digit ds))
          else Some (0, s))"

definition parse_fraction :: "string \<Rightarrow> (string \<times> string) option" where
  "parse_fraction s =
     (case s of
        [] \<Rightarrow> Some ([], s)
      | c # cs \<Rightarrow>
          if c = CHR ''.'' then
            (let fp = takeWhile is_digit cs
             in if fp = [] then None else Some (fp, dropWhile is_digit cs))
          else Some ([], s))"

definition parse_number :: "string \<Rightarrow> (json \<times> string) option" where
  "parse_number s =
     (let (neg, s1) =
            (case s of
               [] \<Rightarrow> (False, s)
             | c # cs \<Rightarrow> if c = CHR ''-'' then (True, cs) else (False, s));
          ip = takeWhile is_digit s1;
          s2 = dropWhile is_digit s1
      in if ip = [] \<or> (1 < length ip \<and> hd ip = CHR ''0'') then None
         else
           (case parse_fraction s2 of
              None \<Rightarrow> None
            | Some (fp, s3) \<Rightarrow>
                (case parse_exponent s3 of
                   None \<Rightarrow> None
                 | Some (e, s4) \<Rightarrow>
                     (let m = (of_nat (digit_value (ip @ fp)) :: rat) / 10 ^ length fp;
                          v = (if 0 \<le> e then m * 10 ^ nat e else m / 10 ^ nat (- e))
                      in Some (JNumber (if neg then - v else v), s4)))))"

text \<open>
  A property set by \<^verbatim>\<open>JSON.parse\<close> on an object under construction: a repeated key
  keeps its place and takes the later value.
\<close>

fun set_property :: "code_units \<Rightarrow> json \<Rightarrow> (code_units \<times> json) list \<Rightarrow> (code_units \<times> json) list" where
  "set_property k v [] = [(k, v)]"
| "set_property k v ((k', v') # ps) =
     (if k = k' then (k, v) # ps else (k', v') # set_property k v ps)"

text \<open>
  The recursive descent over values, array elements and object members. The first
  argument bounds the number of nested calls; \<open>JSON_parse\<close> below starts it above the
  length of the text, which no well-formed text exhausts.
\<close>

fun parse_value :: "nat \<Rightarrow> string \<Rightarrow> (json \<times> string) option"
  and parse_elements :: "nat \<Rightarrow> json list \<Rightarrow> string \<Rightarrow> (json \<times> string) option"
  and parse_members :: "nat \<Rightarrow> (code_units \<times> json) list \<Rightarrow> string \<Rightarrow> (json \<times> string) option"
where
  "parse_value 0 s = None"
| "parse_value (Suc n) s =
     (case skip_ws s of
        [] \<Rightarrow> None
      | c # cs \<Rightarrow>
          if c = dquote then
            (case parse_chars cs of
               None \<Rightarrow> None
             | Some (t, rest) \<Rightarrow> Some (JString t, rest))
          else if c = CHR ''['' then
            (case skip_ws cs of
               [] \<Rightarrow> None
             | d # ds \<Rightarrow> if d = CHR '']'' then Some (JArray [], ds) else parse_elements n [] cs)
          else if c = CHR ''{'' then
            (case skip_ws cs of
               [] \<Rightarrow> None
             | d # ds \<Rightarrow> if d = CHR ''}'' then Some (JObject [], ds) else parse_members n [] cs)
          else if take 4 (c # cs) = ''true'' then Some (JBool True, drop 4 (c # cs))
          else if take 5 (c # cs) = ''false'' then Some (JBool False, drop 5 (c # cs))
          else if take 4 (c # cs) = ''null'' then Some (JNull, drop 4 (c # cs))
          else parse_number (c # cs))"
| "parse_elements 0 acc s = None"
| "parse_elements (Suc n) acc s =
     (case parse_value n s of
        None \<Rightarrow> None
      | Some (v, rest) \<Rightarrow>
          (case skip_ws rest of
             [] \<Rightarrow> None
           | c # cs \<Rightarrow>
               if c = CHR '','' then parse_elements n (acc @ [v]) cs
               else if c = CHR '']'' then Some (JArray (acc @ [v]), cs)
               else None))"
| "parse_members 0 acc s = None"
| "parse_members (Suc n) acc s =
     (case skip_ws s of
        [] \<Rightarrow> None
      | q # qs \<Rightarrow>
          if q \<noteq> dquote then None
          else
            (case parse_chars qs of
               None \<Rightarrow> None
             | Some (k, r1) \<Rightarrow>
                 (case skip_ws r1 of
                    [] \<Rightarrow> None
                  | c1 # r2 \<Rightarrow>
                      if c1 \<noteq> CHR '':'' then None
                      else
                        (case parse_value n r2 of
                           None \<Rightarrow> None
                         | Some (v, r3) \<Rightarrow>
                             (case skip_ws r3 of
                                [] \<Rightarrow> None
                              | c2 # r4 \<Rightarrow>
                                  if c2 = CHR '','' then parse_members n (set_property k v acc) r4
                                  else if c2 = CHR ''}'' then Some (JObject (set_property k v acc), r4)
                                  else None)))))"

text \<open>
  \<^verbatim>\<open>JSON.parse(text)\<close>: the decoded document, or a \<^verbatim>\<open>SyntaxError\<close> when the text is
  not one JSON value surrounded by optional white space.
\<close>

definition JSON_parse :: "string \<Rightarrow> exn + json" where
  "JSON_parse s =
     (case parse_value (2 * length s + 2) s of
        None \<Rightarrow> Inl SyntaxError
      | Some (v, rest) \<Rightarrow> if skip_ws rest = [] then Inr v else Inl SyntaxError)"

section \<open>The outbound dispatcher\<close>

record LLMOptions =
  wantsR1Response :: "bool option"
  wantsJournalEntry :: "bool option"

record MessageOptions = LLMOptions +
  useLLM :: "bool option"

text \<open>
  Modelled from the spec: the declaration of \<^verbatim>\<open>PluginMessage\<close> (imported from
  \<^verbatim>\<open>../types\<close>) is not among the sources. The spec gives the envelope as a flat record
  of the required text \<^verbatim>\<open>message\<close> and the three optional flags; an absent field and
  a field holding \<^verbatim>\<open>undefined\<close> are both \<open>None\<close>.
\<close>

record PluginMessage = MessageOptions +
  message :: string

text \<open>
  \<^verbatim>\<open>JSON.stringify(payload)\<close> on an envelope: the properties that are present, in the
  order \<^verbatim>\<open>message\<close>, \<^verbatim>\<open>useLLM\<close>, \<^verbatim>\<open>wantsR1Response\<close>, \<^verbatim>\<open>wantsJournalEntry\<close>
  (a record does not keep the order in which the caller wrote the options).
\<close>

definition bool_text :: "bool \<Rightarrow> string" where
  "bool_text b = (if b then ''true'' else ''false'')"

definition flag_member :: "string \<Rightarrow> bool option \<Rightarrow> string" where
  "flag_member key v =
     (case v of None \<Rightarrow> [] | Some b \<Rightarrow> '','' @ quote key @ '':'' @ bool_text b)"

definition JSON_stringify :: "PluginMessage \<Rightarrow> string" where
  "JSON_stringify p =
     ''{'' @ quote ''message'' @ '':'' @ quote (message p)
       @ flag_member ''useLLM'' (useLLM p)
       @ flag_member ''wantsR1Response'' (wantsR1Response p)
       @ flag_member ''wantsJournalEntry'' (wantsJournalEntry p)
       @ ''}''"

section \<open>The inbound multiplexer\<close>

text \<open>
  Modelled from the spec: the declaration of \<^verbatim>\<open>PluginMessageResponse\<close> (imported from
  \<^verbatim>\<open>../types\<close>) is not among the sources. The spec gives a delivery as an optional
  string field \<^verbatim>\<open>data\<close> and further host-defined fields that pass through untouched.
\<close>

record PluginMessageResponse =
  data :: "string option"
  host_fields :: "(string \<times> json) list"

record Enhanced = PluginMessageResponse +
  parsedData :: "json option"

text \<open>
  A \<^verbatim>\<open>MessageHandler\<close> is a function reference; references are numbered. An instance of
  the class is an object on the heap, identified by its address.
\<close>

type_synonym handler = nat
type_synonym addr = nat

text \<open>
  The entries of a \<^verbatim>\<open>Set\<close>, as ECMAScript keeps them: in insertion order, a deleted
  entry replaced by an empty slot (\<open>None\<close>), so that a running iteration keeps its place.
\<close>

type_synonym handler_set = "handler option list"

definition Set_add :: "handler \<Rightarrow> handler_set \<Rightarrow> handler_set" where
  "Set_add h es = (if Some h \<in> set es then es else es @ [Some h])"

definition Set_delete :: "handler \<Rightarrow> handler_set \<Rightarrow> handler_set" where
  "Set_delete h es = map (\<lambda>e. if e = Some h then None else e) es"

definition Set_clear :: "handler_set \<Rightarrow> handler_set" where
  "Set_clear es = map (\<lambda>e. None) es"

definition members :: "handler_set \<Rightarrow> handler list" where
  "members es = concat (map (\<lambda>e. case e of None \<Rightarrow> [] | Some h \<Rightarrow> [h]) es)"

record R1Messaging =
  messageHandlers :: handler_set
  isInitialized :: bool

text \<open>
  The state of the process: whether the globals \<^verbatim>\<open>window\<close>, \<^verbatim>\<open>PluginMessageHandler\<close>
  and \<^verbatim>\<open>closeWebView\<close> exist (for the two host primitives, together with the strings
  posted to them so far), the slot \<^verbatim>\<open>window.onPluginMessage\<close> (the closure stored there is
  identified by the instance it captured as \<^verbatim>\<open>this\<close>), the instances, what was written
  with \<^verbatim>\<open>console.error\<close>, and which handler was called with which argument.
\<close>

record runtime =
  window :: bool
  onPluginMessage :: "addr option"
  PluginMessageHandler :: "string list option"
  closeWebView :: "string list option"
  objects :: "addr \<Rightarrow> R1Messaging"
  allocated :: nat
  console :: "(string \<times> exn) list"
  invocations :: "(handler \<times> Enhanced) list"

definition handlers_of :: "addr \<Rightarrow> runtime \<Rightarrow> handler_set" where
  "handlers_of this r = messageHandlers (objects r this)"

definition update_handlers :: "addr \<Rightarrow> (handler_set \<Rightarrow> handler_set) \<Rightarrow> runtime \<Rightarrow> runtime" where
  "update_handlers this f r =
     r\<lparr>objects := (objects r)(this := (objects r this)\<lparr>messageHandlers := f (handlers_of this r)\<rparr>)\<rparr>"

definition onMessage :: "addr \<Rightarrow> handler \<Rightarrow> runtime \<Rightarrow> runtime" where
  "onMessage this h = update_handlers this (Set_add h)"

definition offMessage :: "addr \<Rightarrow> handler \<Rightarrow> runtime \<Rightarrow> runtime" where
  "offMessage this h = update_handlers this (Set_delete h)"

definition removeAllHandlers :: "addr \<Rightarrow> runtime \<Rightarrow> runtime" where
  "removeAllHandlers this = update_handlers this Set_clear"

definition closePlugin :: "runtime \<Rightarrow> runtime" where
  "closePlugin r =
     (case closeWebView r of
        None \<Rightarrow> r
      | Some posted \<Rightarrow> r\<lparr>closeWebView := Some (posted @ [[]])\<rparr>)"

text \<open>
  What the body of a handler does is application code. It is given here by a table: a
  handler called with an argument, after the calls made so far in the process, makes a
  sequence of calls to the registration methods of instances and then returns or throws.
\<close>

datatype call =
    OnMessage addr handler
  | OffMessage addr handler
  | RemoveAllHandlers addr

type_synonym behaviour =
  "handler \<Rightarrow> Enhanced \<Rightarrow> (handler \<times> Enhanced) list \<Rightarrow> call list \<times> exn option"

fun perform :: "call \<Rightarrow> runtime \<Rightarrow> runtime" where
  "perform (OnMessage a h) r = onMessage a h r"
| "perform (OffMessage a h) r = offMessage a h r"
| "perform (RemoveAllHandlers a) r = removeAllHandlers a r"

definition console_error :: "string \<Rightarrow> exn \<Rightarrow> runtime \<Rightarrow> runtime" where
  "console_error label e r = r\<lparr>console := console r @ [(label, e)]\<rparr>"

text \<open>\<^verbatim>\<open>handler(enhancedData)\<close>: the thrown value, if any, and the state after the call.\<close>

definition call_handler :: "behaviour \<Rightarrow> Enhanced \<Rightarrow> handler \<Rightarrow> runtime \<Rightarrow> exn option \<times> runtime" where
  "call_handler B enhancedData h r =
     (case B h enhancedData (invocations r) of
        (calls, thrown) \<Rightarrow>
          (thrown, fold perform calls (r\<lparr>invocations := invocations r @ [(h, enhancedData)]\<rparr>)))"

text \<open>The arrow function given to \<^verbatim>\<open>forEach\<close>: the call inside its own \<^verbatim>\<open>try\<close>.\<close>

definition guarded_call :: "behaviour \<Rightarrow> Enhanced \<Rightarrow> handler \<Rightarrow> runtime \<Rightarrow> runtime" where
  "guarded_call B enhancedData h r =
     (case call_handler B enhancedData h r of
        (None, r') \<Rightarrow> r'
      | (Some error, r') \<Rightarrow> console_error ''Error in message handler:'' error r')"

text \<open>
  \<^verbatim>\<open>Set.prototype.forEach\<close> on the handlers of the instance \<open>this\<close>, from the entry at
  \<open>index\<close> on: the number of entries is read again after every call, an empty slot is
  passed over. A callback that keeps adding entries keeps the loop running; the first
  argument bounds the number of entries visited, and \<open>None\<close> says that the bound was
  reached before the end of the entries.
\<close>

fun forEach :: "nat \<Rightarrow> addr \<Rightarrow> (handler \<Rightarrow> runtime \<Rightarrow> runtime) \<Rightarrow> nat \<Rightarrow> runtime \<Rightarrow> runtime option" where
  "forEach 0 this f index r =
     (if index < length (handlers_of this r) then None else Some r)"
| "forEach (Suc n) this f index r =
     (if index < length (handlers_of this r) then
        (case handlers_of this r ! index of
           None \<Rightarrow> forEach n this f (Suc index) r
         | Some h \<Rightarrow> forEach n this f (Suc index) (f h r))
      else Some r)"

text \<open>
  The decoding of \<^verbatim>\<open>data.data\<close>: nothing when the field is falsy (absent or the empty
  string), otherwise the parsed document, or the string itself when parsing throws.
\<close>

definition decode :: "string option \<Rightarrow> json option" where
  "decode d =
     (case d of
        None \<Rightarrow> None
      | Some s \<Rightarrow>
          if s = [] then None
          else (case JSON_parse s of Inr v \<Rightarrow> Some v | Inl e \<Rightarrow> Some (JString (units s))))"

definition enhance :: "PluginMessageResponse \<Rightarrow> Enhanced" where
  "enhance d = \<lparr>data = data d, host_fields = host_fields d, parsedData = decode (data d)\<rparr>"

text \<open>
  The statements inside the outer \<^verbatim>\<open>try\<close> of the closure. The host's argument is
  \<open>None\<close> when it is \<^verbatim>\<open>null\<close> or \<^verbatim>\<open>undefined\<close>: reading \<^verbatim>\<open>data.data\<close> then throws a
  \<^verbatim>\<open>TypeError\<close>. The result is \<open>None\<close> while the fan-out is still running at the bound.
\<close>

definition process_message ::
  "nat \<Rightarrow> behaviour \<Rightarrow> addr \<Rightarrow> PluginMessageResponse option \<Rightarrow> runtime \<Rightarrow> (exn option \<times> runtime) option" where
  "process_message fuel B this arg r =
     (case arg of
        None \<Rightarrow> Some (Some TypeError, r)
      | Some d \<Rightarrow>
          (case forEach fuel this (guarded_call B (enhance d)) 0 r of
             None \<Rightarrow> None
           | Some r' \<Rightarrow> Some (None, r')))"

text \<open>
  The closure stored in \<^verbatim>\<open>window.onPluginMessage\<close> by the instance \<open>this\<close>: the
  statements above inside \<^verbatim>\<open>try\<close>, with the \<^verbatim>\<open>catch\<close> that logs. The first component
  of the result is what the closure throws to the host.
\<close>

definition plugin_message_closure ::
  "nat \<Rightarrow> behaviour \<Rightarrow> addr \<Rightarrow> PluginMessageResponse option \<Rightarrow> runtime \<Rightarrow> (exn option \<times> runtime) option" where
  "plugin_message_closure fuel B this arg r =
     (case process_message fuel B this arg r of
        None \<Rightarrow> None
      | Some (None, r') \<Rightarrow> Some (None, r')
      | Some (Some error, r') \<Rightarrow>
          Some (None, console_error ''Error processing plugin message:'' error r'))"

definition initializeMessageHandler :: "addr \<Rightarrow> runtime \<Rightarrow> runtime" where
  "initializeMessageHandler this r =
     (if isInitialized (objects r this) \<or> \<not> window r then r
      else
        (let r1 = r\<lparr>onPluginMessage := Some this\<rparr>
         in r1\<lparr>objects := (objects r1)(this := (objects r1 this)\<lparr>isInitialized := True\<rparr>)\<rparr>))"

text \<open>\<^verbatim>\<open>new R1Messaging()\<close>: the field initialisers, then the constructor body.\<close>

definition new_R1Messaging :: "runtime \<Rightarrow> addr \<times> runtime" where
  "new_R1Messaging r =
     (let this = allocated r;
          r1 = r\<lparr>objects := (objects r)(this := \<lparr>messageHandlers = [], isInitialized = False\<rparr>),
                 allocated := Suc this\<rparr>
      in (this, initializeMessageHandler this r1))"

text \<open>
  The host delivering a message: it calls whatever \<^verbatim>\<open>window.onPluginMessage\<close> holds.
  With nothing installed there is nothing to call.
\<close>

definition host_delivers ::
  "nat \<Rightarrow> behaviour \<Rightarrow> PluginMessageResponse option \<Rightarrow> runtime \<Rightarrow> (exn option \<times> runtime) option" where
  "host_delivers fuel B arg r =
     (case onPluginMessage r of
        None \<Rightarrow> Some (None, r)
      | Some this \<Rightarrow> plugin_message_closure fuel B this arg r)"

section \<open>Sending\<close>

text \<open>
  The four sending methods are \<^verbatim>\<open>async\<close>. A call of such a method does not throw: it
  runs the body up to its first \<^verbatim>\<open>await\<close> and returns a promise. When the body has
  ended by then, the promise is settled as the call returns: fulfilled, or rejected with
  what the body threw. At an \<^verbatim>\<open>await\<close> the method is suspended, so the promise is
  still pending as the call returns; a later job settles it. How many jobs that takes
  is not modelled. A call of an ordinary function can throw, which is the completion
  \<open>Throws\<close>; no method of this module completes so.
\<close>

datatype settlement = Fulfilled | Rejected exn

datatype promise =
    Settled settlement
  | Pending settlement

datatype completion =
    Throws exn
  | Returns promise

text \<open>The completion of a call whose body ran to its end without an \<^verbatim>\<open>await\<close>.\<close>

definition async_return :: "exn + unit \<Rightarrow> completion" where
  "async_return outcome =
     (case outcome of
        Inl e \<Rightarrow> Returns (Settled (Rejected e))
      | Inr u \<Rightarrow> Returns (Settled Fulfilled))"

text \<open>
  The completion of a call whose body is the one statement \<^verbatim>\<open>await f(...)\<close>, from the
  completion of the call of \<^verbatim>\<open>f\<close>: the promise is pending as the call returns and is
  settled as the awaited one is. (Had \<^verbatim>\<open>f\<close> thrown, the body would have ended before
  the \<^verbatim>\<open>await\<close>.)
\<close>

definition await_last :: "completion \<Rightarrow> completion" where
  "await_last c =
     (case c of
        Throws e \<Rightarrow> Returns (Settled (Rejected e))
      | Returns (Settled s) \<Rightarrow> Returns (Pending s)
      | Returns (Pending s) \<Rightarrow> Returns (Pending s))"

definition TransportUnavailable :: exn where
  "TransportUnavailable =
     Error ''PluginMessageHandler not available. Make sure you are running in R1 environment.''"

text \<open>The statements of \<^verbatim>\<open>sendMessage\<close>: \<open>Inl\<close> is what they throw.\<close>

definition sendMessage_body :: "string \<Rightarrow> MessageOptions \<Rightarrow> runtime \<Rightarrow> (exn + unit) \<times> runtime" where
  "sendMessage_body msg options r =
     (let payload = \<lparr>wantsR1Response = wantsR1Response options,
                     wantsJournalEntry = wantsJournalEntry options,
                     useLLM = useLLM options,
                     message = msg\<rparr>
      in case PluginMessageHandler r of
           Some posted \<Rightarrow> (Inr (), r\<lparr>PluginMessageHandler := Some (posted @ [JSON_stringify payload])\<rparr>)
         | None \<Rightarrow> (Inl TransportUnavailable, r))"

definition sendMessage :: "string \<Rightarrow> MessageOptions \<Rightarrow> runtime \<Rightarrow> completion \<times> runtime" where
  "sendMessage msg options r =
     (case sendMessage_body msg options r of (outcome, r') \<Rightarrow> (async_return outcome, r'))"

definition askLLM :: "string \<Rightarrow> LLMOptions \<Rightarrow> runtime \<Rightarrow> completion \<times> runtime" where
  "askLLM msg options r =
     (case sendMessage msg \<lparr>wantsR1Response = wantsR1Response options,
                            wantsJournalEntry = wantsJournalEntry options,
                            useLLM = Some True\<rparr> r of
        (c, r') \<Rightarrow> (await_last c, r'))"

definition askLLMSpeak :: "string \<Rightarrow> bool \<Rightarrow> runtime \<Rightarrow> completion \<times> runtime" where
  "askLLMSpeak msg saveToJournal r =
     (case askLLM msg \<lparr>wantsR1Response = Some True, wantsJournalEntry = Some saveToJournal\<rparr> r of
        (c, r') \<Rightarrow> (await_last c, r'))"

text \<open>\<^verbatim>\<open>message.includes('JSON')\<close>: the search string occurs at some position.\<close>

fun String_includes :: "string \<Rightarrow> string \<Rightarrow> bool" where
  "String_includes [] searchString = (searchString = [])"
| "String_includes (c # cs) searchString =
     (take (length searchString) (c # cs) = searchString \<or> String_includes cs searchString)"

definition askLLMJSON :: "string \<Rightarrow> LLMOptions \<Rightarrow> runtime \<Rightarrow> completion \<times> runtime" where
  "askLLMJSON msg options r =
     (let jsonMessage =
            (if String_includes msg ''JSON'' then msg
             else msg @ ''. Please respond with a valid JSON object.'')
      in case askLLM jsonMessage options r of (c, r') \<Rightarrow> (await_last c, r'))"

section \<open>Notions used in the statements\<close>

text \<open>
  The record that the spec expects the host to decode: exactly the \<^verbatim>\<open>message\<close> and the
  fields that \<open>options\<close> has, as a map from property names to values.
\<close>

definition envelope :: "string \<Rightarrow> MessageOptions \<Rightarrow> (code_units \<rightharpoonup> json)" where
  "envelope msg options = (\<lambda>key.
     if key = units ''message'' then Some (JString (units msg))
     else if key = units ''useLLM'' then map_option JBool (useLLM options)
     else if key = units ''wantsR1Response'' then map_option JBool (wantsR1Response options)
     else if key = units ''wantsJournalEntry'' then map_option JBool (wantsJournalEntry options)
     else None)"

text \<open>The properties of an envelope as \<open>JSON_parse\<close> returns them from its serialisation.\<close>

definition flag_property :: "string \<Rightarrow> bool option \<Rightarrow> (code_units \<times> json) list" where
  "flag_property key v = (case v of None \<Rightarrow> [] | Some b \<Rightarrow> [(units key, JBool b)])"

definition properties :: "PluginMessage \<Rightarrow> (code_units \<times> json) list" where
  "properties p =
     (units ''message'', JString (units (message p)))
       # flag_property ''useLLM'' (useLLM p)
       @ flag_property ''wantsR1Response'' (wantsR1Response p)
       @ flag_property ''wantsJournalEntry'' (wantsJournalEntry p)"

text \<open>
  How the entries of a set can change over time: entries are appended, and an entry is
  emptied in place; nothing else happens to them.
\<close>

definition evolves :: "handler_set \<Rightarrow> handler_set \<Rightarrow> bool" where
  "evolves es es' \<longleftrightarrow>
     length es \<le> length es' \<and> (\<forall>k<length es. es' ! k = es ! k \<or> es' ! k = None)"

text \<open>
  The console entries that calling the handlers \<open>hs\<close> in turn with the argument \<open>e\<close>
  leaves, after the calls \<open>hist\<close>: one for each call that throws.
\<close>

fun faults :: "behaviour \<Rightarrow> Enhanced \<Rightarrow> (handler \<times> Enhanced) list \<Rightarrow> handler list \<Rightarrow> (string \<times> exn) list" where
  "faults B e hist [] = []"
| "faults B e hist (h # hs) =
     (case snd (B h e hist) of
        None \<Rightarrow> []
      | Some error \<Rightarrow> [(''Error in message handler:'', error)])
     @ faults B e (hist @ [(h, e)]) hs"

text \<open>The handlers called by a delivery that started in the state \<open>r\<close>, in order.\<close>

definition invoked_in :: "runtime \<Rightarrow> (exn option \<times> runtime) option \<Rightarrow> handler list option" where
  "invoked_in r result =
     (case result of
        None \<Rightarrow> None
      | Some (thrown, r') \<Rightarrow> Some (map fst (drop (length (invocations r)) (invocations r'))))"


text \<open>
  A handler stays registered throughout a delivery: it stands at one place of the set
  before each call and at the end.
\<close>

definition stays_registered ::
  "addr \<Rightarrow> behaviour \<Rightarrow> Enhanced \<Rightarrow> runtime \<Rightarrow> handler list \<Rightarrow> handler \<Rightarrow> bool" where
  "stays_registered this B e r hs L \<longleftrightarrow>
     (\<exists>k<length (handlers_of this r).
        \<forall>p\<le>length hs. handlers_of this (fold (guarded_call B e) (take p hs) r) ! k = Some L)"

section \<open>Example processes and handlers\<close>

text \<open>
  A fresh process inside the host (both primitives present, nothing posted, no instance
  yet), the same outside the host (a plain browser tab: a \<^verbatim>\<open>window\<close>, no primitives),
  and the host process after the module has constructed its instance, which gets
  address 0.
\<close>

definition host_runtime :: runtime where
  "host_runtime =
     \<lparr>window = True, onPluginMessage = None, PluginMessageHandler = Some [],
      closeWebView = Some [],
      objects = (\<lambda>a. \<lparr>messageHandlers = [], isInitialized = False\<rparr>),
      allocated = 0, console = [], invocations = []\<rparr>"

definition browser_tab :: runtime where
  "browser_tab = host_runtime\<lparr>PluginMessageHandler := None, closeWebView := None\<rparr>"

definition started :: runtime where
  "started = snd (new_R1Messaging host_runtime)"

definition delivery :: "string option \<Rightarrow> PluginMessageResponse" where
  "delivery s = \<lparr>data = s, host_fields = []\<rparr>"

text \<open>
  Handler tables: handlers that do nothing; handler 1 registering handler 2 on the
  instance at 0 when called; handler 1 unregistering handler 2; and handlers that each
  unregister themselves when called, handler 1 then throwing.
\<close>

definition quiet :: behaviour where
  "quiet = (\<lambda>h e hist. ([], None))"

definition registers_during_fan_out :: behaviour where
  "registers_during_fan_out = (\<lambda>h e hist. (if h = 1 then [OnMessage 0 2] else [], None))"

definition unregisters_during_fan_out :: behaviour where
  "unregisters_during_fan_out = (\<lambda>h e hist. (if h = 1 then [OffMessage 0 2] else [], None))"


section \<open>Serialising and parsing an envelope\<close>

text \<open>
  What \<open>quote\<close> writes, \<open>parse_chars\<close> reads back, character by character; on top of
  that, the serialisation of an envelope parses to its properties.
\<close>

lemma units_eq_iff: "units a = units b \<longleftrightarrow> a = b"
proof -
  have "inj (of_char :: char \<Rightarrow> nat)" by (rule injI) simp
  then show ?thesis by (auto simp: units_def dest: inj_mapD [THEN injD])
qed

lemma units_simps: "units [] = []" "units (c # cs) = of_char c # units cs"
  by (simp_all add: units_def)

lemma await_last_askLLM:
  "(case askLLM msg options r of (c, r') \<Rightarrow> (await_last c, r')) = askLLM msg options r"
  by (simp add: askLLM_def sendMessage_def async_return_def await_last_def
      split: prod.splits sum.splits)

lemma hex_val_hex_digit: "k < 16 \<Longrightarrow> hex_val (hex_digit k) = Some k"
  by (auto simp: hex_val_def hex_digit_def Let_def)

lemma unicode_escape_control:
  assumes "(of_char c :: nat) < 32"
  shows "unicode_escape (CHR ''0'') (CHR ''0'') (hex_digit (of_char c div 16)) (hex_digit (of_char c mod 16)) = Some (of_char c)"
proof -
  let ?n = "of_char c :: nat"
  have d: "?n div 16 < 16" using assms by simp
  have m: "?n mod 16 < 16" by simp
  have z: "hex_val (CHR ''0'') = Some 0" by (simp add: hex_val_def)
  have "((0 * 16 + 0) * 16 + ?n div 16) * 16 + ?n mod 16 = ?n" by simp
  moreover have "?n < 256" using assms by simp
  ultimately show ?thesis
    by (simp add: unicode_escape_def z hex_val_hex_digit [OF d] hex_val_hex_digit [OF m])
qed

lemma parse_chars_escape_char:
  "parse_chars (escape_char c @ rest) = cons_unit (of_char c) (parse_chars rest)"
proof -
  consider "c = dquote" | "c = backslash" | "c = CHR 0x08" | "c = CHR 0x0C" | "c = CHR 0x0A"
    | "c = CHR 0x0D" | "c = CHR 0x09"
    | "(of_char c :: nat) < 32" "c \<noteq> CHR 0x08" "c \<noteq> CHR 0x0C" "c \<noteq> CHR 0x0A" "c \<noteq> CHR 0x0D" "c \<noteq> CHR 0x09"
    | "\<not> (of_char c :: nat) < 32" "c \<noteq> dquote" "c \<noteq> backslash"
    by blast
  then show ?thesis
  proof cases
    case 1 then show ?thesis by (simp add: escape_char_def simple_escape_def dquote_def backslash_def)
  next
    case 2 then show ?thesis by (simp add: escape_char_def simple_escape_def dquote_def backslash_def)
  next
    case 3 then show ?thesis by (simp add: escape_char_def simple_escape_def dquote_def backslash_def)
  next
    case 4 then show ?thesis by (simp add: escape_char_def simple_escape_def dquote_def backslash_def)
  next
    case 5 then show ?thesis by (simp add: escape_char_def simple_escape_def dquote_def backslash_def)
  next
    case 6 then show ?thesis by (simp add: escape_char_def simple_escape_def dquote_def backslash_def)
  next
    case 7 then show ?thesis by (simp add: escape_char_def simple_escape_def dquote_def backslash_def)
  next
    case 8
    have nq: "c \<noteq> dquote" "c \<noteq> backslash" using 8(1) by (auto simp: dquote_def backslash_def)
    show ?thesis using 8 nq
      by (simp add: escape_char_def unicode_escape_control dquote_def backslash_def)
  next
    case 9
    have nc: "c \<noteq> CHR 0x08" "c \<noteq> CHR 0x0C" "c \<noteq> CHR 0x0A" "c \<noteq> CHR 0x0D" "c \<noteq> CHR 0x09"
      using 9(1) by auto
    show ?thesis using 9 nc by (simp add: escape_char_def)
  qed
qed

lemma parse_chars_escaped:
  "parse_chars (concat (map escape_char s) @ dquote # rest) = Some (units s, rest)"
  by (induction s) (simp_all add: parse_chars_escape_char cons_unit_def units_simps)

lemma quote_append: "quote s @ rest = dquote # concat (map escape_char s) @ dquote # rest"
  by (simp add: quote_def)

lemma skip_ws_Cons: "\<not> is_ws c \<Longrightarrow> skip_ws (c # cs) = c # cs"
  by (simp add: skip_ws_def)

lemma parse_value_string: "parse_value (Suc n) (quote s @ rest) = Some (JString (units s), rest)"
  by (simp add: quote_append skip_ws_Cons is_ws_def dquote_def parse_chars_escaped [unfolded dquote_def])

lemma skip_ws_quote: "skip_ws (quote s @ rest) = quote s @ rest"
  by (simp add: quote_append skip_ws_Cons is_ws_def dquote_def)

lemma parse_value_bool:
  "c = CHR '','' \<or> c = CHR ''}'' \<Longrightarrow>
   parse_value (Suc n) (bool_text b @ c # rest) = Some (JBool b, c # rest)"
  by (cases b) (auto simp: bool_text_def skip_ws_Cons is_ws_def dquote_def)

lemma parse_members_quote:
  "parse_members (Suc n) acc (quote k @ CHR '':'' # rest) =
     (case parse_value n rest of
        None \<Rightarrow> None
      | Some (v, r3) \<Rightarrow>
          (case skip_ws r3 of
             [] \<Rightarrow> None
           | c2 # r4 \<Rightarrow>
               if c2 = CHR '','' then parse_members n (set_property (units k) v acc) r4
               else if c2 = CHR ''}'' then Some (JObject (set_property (units k) v acc), r4)
               else None))"
  by (simp add: quote_append skip_ws_Cons is_ws_def parse_chars_escaped [unfolded dquote_def] dquote_def)

lemma parse_value_object:
  "parse_value (Suc n) (CHR ''{'' # quote k @ rest) = parse_members n [] (quote k @ rest)"
  by (simp add: quote_append skip_ws_Cons is_ws_def dquote_def)

lemma parse_stringify:
  "parse_value (Suc (Suc (Suc (Suc (Suc (Suc n)))))) (JSON_stringify p) = Some (JObject (properties p), [])"
proof -
  have ws: "skip_ws (CHR '','' # xs) = CHR '','' # xs" "skip_ws (CHR ''}'' # xs) = CHR ''}'' # xs" for xs
    by (simp_all add: skip_ws_Cons is_ws_def)
  have q: "\<exists>t. quote s @ rest = dquote # t" for s rest
    by (simp add: quote_append)
  show ?thesis
    by (cases "useLLM p"; cases "wantsR1Response p"; cases "wantsJournalEntry p")
       (simp_all add: JSON_stringify_def flag_member_def properties_def flag_property_def
          skip_ws_Cons is_ws_def skip_ws_quote parse_members_quote parse_value_string
          ws parse_value_object parse_value_bool units_eq_iff
          del: parse_value.simps parse_members.simps)
qed

lemma length_JSON_stringify: "2 \<le> length (JSON_stringify p)"
  by (simp add: JSON_stringify_def)

lemma JSON_parse_stringify: "JSON_parse (JSON_stringify p) = Inr (JObject (properties p))"
proof -
  have "2 * length (JSON_stringify p) + 2 =
          Suc (Suc (Suc (Suc (Suc (Suc (2 * length (JSON_stringify p) - 4))))))"
    using length_JSON_stringify [of p] by arith
  then have "parse_value (2 * length (JSON_stringify p) + 2) (JSON_stringify p) =
          Some (JObject (properties p), [])"
    using parse_stringify [of "2 * length (JSON_stringify p) - 4" p] by metis
  then show ?thesis
    by (simp add: JSON_parse_def skip_ws_def del: parse_value.simps)
qed

lemma distinct_properties: "distinct (map fst (properties p))"
  by (cases "useLLM p"; cases "wantsR1Response p"; cases "wantsJournalEntry p")
     (simp_all add: properties_def flag_property_def units_eq_iff)

lemma map_of_properties:
  "map_of (properties \<lparr>wantsR1Response = wantsR1Response options,
                        wantsJournalEntry = wantsJournalEntry options,
                        useLLM = useLLM options, message = msg\<rparr>) = envelope msg options"
  by (cases "useLLM options"; cases "wantsR1Response options"; cases "wantsJournalEntry options")
     (auto simp add: properties_def flag_property_def envelope_def fun_eq_iff units_eq_iff)

text \<open>\<^verbatim>\<open>includes\<close> as computed is the occurrence of the search string as a substring.\<close>

lemma String_includes_iff: "String_includes s t \<longleftrightarrow> (\<exists>xs ys. s = xs @ t @ ys)"
proof (induction s)
  case Nil
  then show ?case by auto
next
  case (Cons c cs)
  show ?case
  proof
    assume "String_includes (c # cs) t"
    then consider "take (length t) (c # cs) = t" | "String_includes cs t" by auto
    then show "\<exists>xs ys. c # cs = xs @ t @ ys"
    proof cases
      case 1
      then have "c # cs = [] @ t @ drop (length t) (c # cs)"
        by (metis append_Nil append_take_drop_id)
      then show ?thesis by blast
    next
      case 2
      then obtain xs ys where "cs = xs @ t @ ys" using Cons.IH by blast
      then have "c # cs = (c # xs) @ t @ ys" by simp
      then show ?thesis by blast
    qed
  next
    assume "\<exists>xs ys. c # cs = xs @ t @ ys"
    then obtain xs ys where eq: "c # cs = xs @ t @ ys" by blast
    show "String_includes (c # cs) t"
    proof (cases xs)
      case Nil
      then have "take (length t) (c # cs) = t" using eq by simp
      then show ?thesis by simp
    next
      case (Cons x xs')
      then have "cs = xs' @ t @ ys" using eq by simp
      then have "String_includes cs t" using Cons.IH by blast
      then show ?thesis by simp
    qed
  qed
qed

section \<open>The set under iteration\<close>

text \<open>
  The registration methods only append entries or empty them in place, and a handler can
  reach the set through these methods only. So an entry that is still filled when a
  fan-out ends was filled when the iteration passed it, and was called.
\<close>

lemma evolves_refl: "evolves es es"
  by (simp add: evolves_def)

lemma evolves_trans: "evolves a b \<Longrightarrow> evolves b c \<Longrightarrow> evolves a c"
  unfolding evolves_def by (metis le_trans less_le_trans)

lemma evolves_Set_add: "evolves es (Set_add h es)"
  by (simp add: evolves_def Set_add_def nth_append)

lemma evolves_Set_delete: "evolves es (Set_delete h es)"
  by (simp add: evolves_def Set_delete_def)

lemma evolves_Set_clear: "evolves es (Set_clear es)"
  by (simp add: evolves_def Set_clear_def)

lemma handlers_of_update_handlers:
  "handlers_of this (update_handlers a f r) =
     (if a = this then f (handlers_of this r) else handlers_of this r)"
  by (simp add: handlers_of_def update_handlers_def)

lemma update_handlers_frame:
  "invocations (update_handlers a f r) = invocations r"
  "console (update_handlers a f r) = console r"
  "onPluginMessage (update_handlers a f r) = onPluginMessage r"
  by (simp_all add: update_handlers_def)

lemma perform_frame:
  "invocations (perform c r) = invocations r"
  "console (perform c r) = console r"
  "onPluginMessage (perform c r) = onPluginMessage r"
  by (cases c; simp add: onMessage_def offMessage_def removeAllHandlers_def update_handlers_frame)+

lemma fold_perform_frame:
  "invocations (fold perform cs r) = invocations r"
  "console (fold perform cs r) = console r"
  "onPluginMessage (fold perform cs r) = onPluginMessage r"
  by (induction cs arbitrary: r; simp add: perform_frame)+

lemma evolves_perform: "evolves (handlers_of this r) (handlers_of this (perform c r))"
  by (cases c)
     (simp_all add: onMessage_def offMessage_def removeAllHandlers_def handlers_of_update_handlers
        evolves_refl evolves_Set_add evolves_Set_delete evolves_Set_clear)

lemma evolves_fold_perform: "evolves (handlers_of this r) (handlers_of this (fold perform cs r))"
proof (induction cs arbitrary: r)
  case Nil
  show ?case by (simp add: evolves_refl)
next
  case (Cons c cs)
  show ?case using evolves_trans [OF evolves_perform Cons.IH] by simp
qed

lemma handlers_of_frame:
  "handlers_of this (r\<lparr>invocations := x\<rparr>) = handlers_of this r"
  "handlers_of this (r\<lparr>console := y\<rparr>) = handlers_of this r"
  by (simp_all add: handlers_of_def)

lemma guarded_call_invocations:
  "invocations (guarded_call B e h r) = invocations r @ [(h, e)]"
  by (simp add: guarded_call_def call_handler_def console_error_def fold_perform_frame
      split: prod.splits option.splits)

lemma guarded_call_console:
  "console (guarded_call B e h r) =
     console r @ (case snd (B h e (invocations r)) of
                    None \<Rightarrow> []
                  | Some error \<Rightarrow> [(''Error in message handler:'', error)])"
  by (auto simp add: guarded_call_def call_handler_def console_error_def fold_perform_frame
      split: prod.splits option.splits)

lemma guarded_call_handlers:
  "handlers_of this (guarded_call B e h r) =
     handlers_of this (fold perform (fst (B h e (invocations r))) r)"
proof -
  have "handlers_of this (fold perform cs (r\<lparr>invocations := x\<rparr>)) = handlers_of this (fold perform cs r)" for cs x
  proof (induction cs arbitrary: r)
    case Nil
    show ?case by (simp add: handlers_of_frame)
  next
    case (Cons c cs)
    have "perform c (r\<lparr>invocations := x\<rparr>) = (perform c r)\<lparr>invocations := x\<rparr>"
      by (cases c) (simp_all add: onMessage_def offMessage_def removeAllHandlers_def update_handlers_def handlers_of_def)
    then show ?case using Cons.IH by simp
  qed
  then show ?thesis
    by (auto simp add: guarded_call_def call_handler_def console_error_def handlers_of_frame
        split: prod.splits option.splits)
qed

lemma evolves_guarded_call: "evolves (handlers_of this r) (handlers_of this (guarded_call B e h r))"
  by (simp add: guarded_call_handlers evolves_fold_perform)

lemma evolves_keeps:
  "evolves es es' \<Longrightarrow> k < length es \<Longrightarrow> es' ! k = Some h \<Longrightarrow> es ! k = Some h"
  unfolding evolves_def by (metis option.distinct(1))

lemma forEach_run:
  assumes ev: "\<And>h r. evolves (handlers_of this r) (handlers_of this (f h r))"
  shows "forEach n this f i r = Some r' \<Longrightarrow>
     \<exists>hs. r' = fold f hs r
        \<and> evolves (handlers_of this r) (handlers_of this r')
        \<and> (\<forall>p<length hs. Some (hs ! p) \<in> set (handlers_of this (fold f (take p hs) r)))
        \<and> (\<forall>k h. i \<le> k \<longrightarrow> k < length (handlers_of this r') \<longrightarrow> handlers_of this r' ! k = Some h \<longrightarrow> h \<in> set hs)
        \<and> (\<forall>k l a b. i \<le> k \<longrightarrow> k < l \<longrightarrow> l < length (handlers_of this r') \<longrightarrow>
               handlers_of this r' ! k = Some a \<longrightarrow> handlers_of this r' ! l = Some b \<longrightarrow>
               (\<exists>x y z. hs = x @ a # y @ b # z))"
proof (induction n arbitrary: i r)
  case 0
  then have "\<not> i < length (handlers_of this r)" and "r' = r"
    by (auto split: if_splits)
  then show ?case
    by (intro exI [of _ "[]"]) (simp add: evolves_refl)
next
  case (Suc n)
  show ?case
  proof (cases "i < length (handlers_of this r)")
    case False
    then have "r' = r" using Suc.prems by simp
    with False show ?thesis
      by (intro exI [of _ "[]"]) (simp add: evolves_refl)
  next
    case True
    show ?thesis
    proof (cases "handlers_of this r ! i")
      case None
      then have "forEach n this f (Suc i) r = Some r'" using Suc.prems True by simp
      from Suc.IH [OF this] obtain hs where hs:
        "r' = fold f hs r" "evolves (handlers_of this r) (handlers_of this r')"
        "\<forall>p<length hs. Some (hs ! p) \<in> set (handlers_of this (fold f (take p hs) r))"
        "\<forall>k h. Suc i \<le> k \<longrightarrow> k < length (handlers_of this r') \<longrightarrow> handlers_of this r' ! k = Some h \<longrightarrow> h \<in> set hs"
        "\<forall>k l a b. Suc i \<le> k \<longrightarrow> k < l \<longrightarrow> l < length (handlers_of this r') \<longrightarrow>
               handlers_of this r' ! k = Some a \<longrightarrow> handlers_of this r' ! l = Some b \<longrightarrow>
               (\<exists>x y z. hs = x @ a # y @ b # z)"
        by (elim exE conjE)
      have no: "handlers_of this r' ! i \<noteq> Some h" for h
        using evolves_keeps [OF hs(2) True] None by fastforce
      have c: "\<forall>k h. i \<le> k \<longrightarrow> k < length (handlers_of this r') \<longrightarrow> handlers_of this r' ! k = Some h \<longrightarrow> h \<in> set hs"
      proof (intro allI impI)
        fix k h assume k: "i \<le> k" "k < length (handlers_of this r')" "handlers_of this r' ! k = Some h"
        then have "k \<noteq> i" using no by auto
        then have "Suc i \<le> k" using k(1) by simp
        then show "h \<in> set hs" using hs(4) k by simp
      qed
      have o: "\<forall>k l a b. i \<le> k \<longrightarrow> k < l \<longrightarrow> l < length (handlers_of this r') \<longrightarrow>
               handlers_of this r' ! k = Some a \<longrightarrow> handlers_of this r' ! l = Some b \<longrightarrow>
               (\<exists>x y z. hs = x @ a # y @ b # z)"
      proof (intro allI impI)
        fix k l a b
        assume k: "i \<le> k" "k < l" "l < length (handlers_of this r')"
          "handlers_of this r' ! k = Some a" "handlers_of this r' ! l = Some b"
        then have "k \<noteq> i" using no by auto
        then have "Suc i \<le> k" using k(1) by simp
        then show "\<exists>x y z. hs = x @ a # y @ b # z" using hs(5) k by blast
      qed
      show ?thesis
        by (rule exI [of _ hs]) (intro conjI hs(1) hs(2) hs(3) c o)
    next
      case (Some h0)
      then have "forEach n this f (Suc i) (f h0 r) = Some r'" using Suc.prems True by simp
      from Suc.IH [OF this] obtain hs where hs:
        "r' = fold f hs (f h0 r)" "evolves (handlers_of this (f h0 r)) (handlers_of this r')"
        "\<forall>p<length hs. Some (hs ! p) \<in> set (handlers_of this (fold f (take p hs) (f h0 r)))"
        "\<forall>k h. Suc i \<le> k \<longrightarrow> k < length (handlers_of this r') \<longrightarrow> handlers_of this r' ! k = Some h \<longrightarrow> h \<in> set hs"
        "\<forall>k l a b. Suc i \<le> k \<longrightarrow> k < l \<longrightarrow> l < length (handlers_of this r') \<longrightarrow>
               handlers_of this r' ! k = Some a \<longrightarrow> handlers_of this r' ! l = Some b \<longrightarrow>
               (\<exists>x y z. hs = x @ a # y @ b # z)"
        by (elim exE conjE)
      have e: "evolves (handlers_of this r) (handlers_of this r')"
        using evolves_trans [OF ev hs(2)] .
      have at_i: "a = h0" if "handlers_of this r' ! i = Some a" for a
        using evolves_keeps [OF e True that] Some by simp
      have a: "r' = fold f (h0 # hs) r" using hs(1) by simp
      have b: "\<forall>p<length (h0 # hs). Some ((h0 # hs) ! p) \<in> set (handlers_of this (fold f (take p (h0 # hs)) r))"
      proof (intro allI impI)
        fix p assume p: "p < length (h0 # hs)"
        show "Some ((h0 # hs) ! p) \<in> set (handlers_of this (fold f (take p (h0 # hs)) r))"
        proof (cases p)
          case 0
          have "Some h0 \<in> set (handlers_of this r)" using Some True by (metis nth_mem)
          then show ?thesis using 0 by simp
        next
          case (Suc q)
          then show ?thesis using hs(3) p by simp
        qed
      qed
      have c: "\<forall>k h. i \<le> k \<longrightarrow> k < length (handlers_of this r') \<longrightarrow> handlers_of this r' ! k = Some h \<longrightarrow> h \<in> set (h0 # hs)"
      proof (intro allI impI)
        fix k h assume k: "i \<le> k" "k < length (handlers_of this r')" "handlers_of this r' ! k = Some h"
        show "h \<in> set (h0 # hs)"
        proof (cases "k = i")
          case True
          then show ?thesis using at_i k(3) by simp
        next
          case False
          then have "Suc i \<le> k" using k(1) by simp
          then show ?thesis using hs(4) k by simp
        qed
      qed
      have o: "\<forall>k l a b. i \<le> k \<longrightarrow> k < l \<longrightarrow> l < length (handlers_of this r') \<longrightarrow>
               handlers_of this r' ! k = Some a \<longrightarrow> handlers_of this r' ! l = Some b \<longrightarrow>
               (\<exists>x y z. h0 # hs = x @ a # y @ b # z)"
      proof (intro allI impI)
        fix k l a b
        assume k: "i \<le> k" "k < l" "l < length (handlers_of this r')"
          "handlers_of this r' ! k = Some a" "handlers_of this r' ! l = Some b"
        show "\<exists>x y z. h0 # hs = x @ a # y @ b # z"
        proof (cases "k = i")
          case True
          then have a: "a = h0" using at_i k(4) by simp
          have "Suc i \<le> l" using True k(2) by simp
          then have "b \<in> set hs" using hs(4) k(3,5) by simp
          then obtain y z where "hs = y @ b # z" by (auto simp: in_set_conv_decomp)
          then have "h0 # hs = [] @ a # y @ b # z" using a by simp
          then show ?thesis by blast
        next
          case False
          then have "Suc i \<le> k" using k(1) by simp
          then obtain x y z where "hs = x @ a # y @ b # z" using hs(5) k by blast
          then have "h0 # hs = (h0 # x) @ a # y @ b # z" by simp
          then show ?thesis by blast
        qed
      qed
      show ?thesis
        by (rule exI [of _ "h0 # hs"]) (intro conjI a e b c o)
    qed
  qed
qed

lemma members_Nil: "members [] = []"
  by (simp add: members_def)

lemma members_Cons:
  "members (e # es) = (case e of None \<Rightarrow> members es | Some h \<Rightarrow> h # members es)"
  by (simp add: members_def split: option.splits)

lemma members_append: "members (xs @ ys) = members xs @ members ys"
  by (simp add: members_def)

lemma set_members: "set (members es) = {h. Some h \<in> set es}"
  by (induction es) (auto simp: members_Nil members_Cons split: option.splits)

lemma members_Set_add:
  "members (Set_add h es) = (if h \<in> set (members es) then members es else members es @ [h])"
  by (simp add: Set_add_def set_members members_append members_Cons members_Nil)

lemma members_Set_delete: "members (Set_delete h es) = removeAll h (members es)"
  by (induction es) (auto simp: Set_delete_def members_Nil members_Cons split: option.splits)

lemma members_Set_clear: "members (Set_clear es) = []"
  by (induction es) (auto simp: Set_clear_def members_Nil members_Cons)

lemma Set_add_idem: "Set_add h (Set_add h es) = Set_add h es"
  by (simp add: Set_add_def)

lemma onMessage_twice: "onMessage this h (onMessage this h r) = onMessage this h r"
  by (simp add: onMessage_def update_handlers_def handlers_of_def Set_add_idem)

lemma members_in_order:
  assumes "i < j" "j < length es" "es ! i = Some a" "es ! j = Some b"
  shows "\<exists>x y z. members es = x @ a # y @ b # z"
proof -
  have i: "i < length es" using assms by simp
  have 1: "es = take i es @ Some a # drop (Suc i) es"
    using id_take_nth_drop [OF i] assms(3) by simp
  let ?t = "drop (Suc i) es"
  have j': "j - Suc i < length ?t" using assms by simp
  have "?t ! (j - Suc i) = Some b" using assms by simp
  then have 2: "?t = take (j - Suc i) ?t @ Some b # drop (Suc (j - Suc i)) ?t"
    using id_take_nth_drop [OF j'] by simp
  have "members es = members (take i es) @ a # members ?t"
    by (subst 1) (simp add: members_append members_Cons)
  also have "members ?t = members (take (j - Suc i) ?t) @ b # members (drop (Suc (j - Suc i)) ?t)"
    by (subst 2) (simp add: members_append members_Cons)
  finally show ?thesis by blast
qed

lemma fold_guarded_invocations:
  "invocations (fold (guarded_call B e) hs r) = invocations r @ map (\<lambda>h. (h, e)) hs"
  by (induction hs arbitrary: r) (simp_all add: guarded_call_invocations)

lemma fold_guarded_console:
  "console (fold (guarded_call B e) hs r) = console r @ faults B e (invocations r) hs"
  by (induction hs arbitrary: r) (simp_all add: guarded_call_invocations guarded_call_console)

lemma forEach_quiet:
  assumes q: "\<And>h r. handlers_of this (f h r) = handlers_of this r"
  shows "length (handlers_of this r) \<le> i + n \<Longrightarrow>
     forEach n this f i r = Some (fold f (members (drop i (handlers_of this r))) r)"
proof (induction n arbitrary: i r)
  case 0
  then show ?case by (simp add: members_Nil)
next
  case (Suc n)
  show ?case
  proof (cases "i < length (handlers_of this r)")
    case False
    then show ?thesis by (simp add: members_Nil)
  next
    case True
    have d: "drop i (handlers_of this r) = handlers_of this r ! i # drop (Suc i) (handlers_of this r)"
      using True by (simp add: Cons_nth_drop_Suc)
    show ?thesis
    proof (cases "handlers_of this r ! i")
      case None
      have "forEach n this f (Suc i) r = Some (fold f (members (drop (Suc i) (handlers_of this r))) r)"
        using Suc.prems by (intro Suc.IH) simp
      then show ?thesis using True None by (simp add: d members_Cons)
    next
      case (Some h)
      have "forEach n this f (Suc i) (f h r) = Some (fold f (members (drop (Suc i) (handlers_of this (f h r)))) (f h r))"
        using Suc.prems by (intro Suc.IH) (simp add: q)
      then show ?thesis using True Some by (simp add: d members_Cons q)
    qed
  qed
qed

lemma guarded_call_quiet:
  "fst (B h e (invocations r)) = [] \<Longrightarrow> handlers_of this (guarded_call B e h r) = handlers_of this r"
  by (simp add: guarded_call_handlers)

section \<open>Deliveries\<close>

lemma delivery_result:
  assumes "onPluginMessage r = Some this" and "host_delivers fuel B (Some d) r = Some (thrown, r')"
  shows "thrown = None \<and> forEach fuel this (guarded_call B (enhance d)) 0 r = Some r'"
  using assms
  by (auto simp: host_delivers_def plugin_message_closure_def process_message_def
      split: option.splits prod.splits)

lemma slot_started: "onPluginMessage started = Some 0"
  by (simp add: started_def new_R1Messaging_def initializeMessageHandler_def host_runtime_def Let_def)

lemma started_fields:
  "handlers_of a started = []"
  "invocations started = []"
  "console started = []"
  by (simp_all add: started_def new_R1Messaging_def initializeMessageHandler_def host_runtime_def
      handlers_of_def Let_def)

lemma registration_frame:
  "invocations (onMessage a h r) = invocations r"
  "console (onMessage a h r) = console r"
  "onPluginMessage (onMessage a h r) = onPluginMessage r"
  "invocations (offMessage a h r) = invocations r"
  "console (offMessage a h r) = console r"
  "onPluginMessage (offMessage a h r) = onPluginMessage r"
  "invocations (removeAllHandlers a r) = invocations r"
  "console (removeAllHandlers a r) = console r"
  "onPluginMessage (removeAllHandlers a r) = onPluginMessage r"
  by (simp_all add: onMessage_def offMessage_def removeAllHandlers_def update_handlers_frame)

lemma registration_handlers:
  "handlers_of this (onMessage a h r) = (if a = this then Set_add h (handlers_of this r) else handlers_of this r)"
  "handlers_of this (offMessage a h r) = (if a = this then Set_delete h (handlers_of this r) else handlers_of this r)"
  "handlers_of this (removeAllHandlers a r) = (if a = this then Set_clear (handlers_of this r) else handlers_of this r)"
  by (simp_all add: onMessage_def offMessage_def removeAllHandlers_def handlers_of_update_handlers)

lemma guarded_call_slot: "onPluginMessage (guarded_call B e h r) = onPluginMessage r"
  by (simp add: guarded_call_def call_handler_def console_error_def fold_perform_frame
      split: prod.splits option.splits)

lemma host_delivers_installed:
  "onPluginMessage r = Some this \<Longrightarrow>
   host_delivers fuel B (Some d) r =
     (case forEach fuel this (guarded_call B (enhance d)) 0 r of
        None \<Rightarrow> None
      | Some r' \<Rightarrow> Some (None, r'))"
  by (simp add: host_delivers_def plugin_message_closure_def process_message_def split: option.splits)

lemmas run_simps =
  host_delivers_installed slot_started started_fields registration_frame registration_handlers
  guarded_call_handlers guarded_call_invocations guarded_call_console
  Set_add_def Set_delete_def Set_clear_def invoked_in_def members_def numeral_2_eq_2

lemma forEach_guarded_run:
  assumes run: "forEach fuel this (guarded_call B e) 0 r = Some r'"
  shows "\<exists>hs. r' = fold (guarded_call B e) hs r
        \<and> evolves (handlers_of this r) (handlers_of this r')
        \<and> (\<forall>p<length hs. Some (hs ! p) \<in> set (handlers_of this (fold (guarded_call B e) (take p hs) r)))
        \<and> (\<forall>k h. 0 \<le> k \<longrightarrow> k < length (handlers_of this r') \<longrightarrow> handlers_of this r' ! k = Some h \<longrightarrow> h \<in> set hs)
        \<and> (\<forall>k l a b. 0 \<le> k \<longrightarrow> k < l \<longrightarrow> l < length (handlers_of this r') \<longrightarrow>
               handlers_of this r' ! k = Some a \<longrightarrow> handlers_of this r' ! l = Some b \<longrightarrow>
               (\<exists>x y z. hs = x @ a # y @ b # z))"
proof -
  have ev: "\<And>h r. evolves (handlers_of this r) (handlers_of this (guarded_call B e h r))"
    by (rule evolves_guarded_call)
  show ?thesis
    by (rule forEach_run [where f = "guarded_call B e" and this = this, OF ev run])
qed


lemma quiet_delivery:
  assumes slot: "onPluginMessage r = Some this"
      and quiet: "\<forall>h hist. fst (B h (enhance d) hist) = []"
      and fuel: "length (handlers_of this r) \<le> fuel"
  shows "\<exists>r'. host_delivers fuel B (Some d) r = Some (None, r')
           \<and> invocations r' = invocations r @ map (\<lambda>h. (h, enhance d)) (members (handlers_of this r))
           \<and> console r' = console r @ faults B (enhance d) (invocations r) (members (handlers_of this r))
           \<and> handlers_of this r' = handlers_of this r"
proof -
  let ?f = "guarded_call B (enhance d)"
  have q: "handlers_of this (?f h r) = handlers_of this r" for h r
    using quiet by (simp add: guarded_call_quiet)
  have "forEach fuel this ?f 0 r = Some (fold ?f (members (drop 0 (handlers_of this r))) r)"
    using fuel by (intro forEach_quiet q) simp
  then have run: "host_delivers fuel B (Some d) r = Some (None, fold ?f (members (handlers_of this r)) r)"
    using slot by (simp add: host_delivers_installed)
  have "handlers_of this (fold ?f hs r) = handlers_of this r" for hs
    by (induction hs arbitrary: r) (simp_all add: q)
  with run show ?thesis
    by (simp add: fold_guarded_invocations fold_guarded_console)
qed


lemma evolves_length: "evolves es es' \<Longrightarrow> length es \<le> length es'"
  by (simp add: evolves_def)

lemma count_list_distinct:
  "distinct xs \<Longrightarrow> count_list xs x = (if x \<in> set xs then 1 else 0)"
  by (induction xs) auto

lemma distinct_members_kept:
  assumes "distinct (members es)"
  shows "distinct (members (Set_add h es))"
    and "distinct (members (Set_delete h es))"
    and "distinct (members (Set_clear es))"
  using assms
  by (simp_all add: members_Set_add members_Set_delete members_Set_clear distinct_removeAll)

lemma forEach_done: "length (handlers_of this r) \<le> i \<Longrightarrow> forEach n this f i r = Some r"
  by (cases n) simp_all

text \<open>
  The members of a set are distinct in every state the methods can reach: a new instance
  starts with the empty set, and every call a handler or the application can make keeps
  the members distinct.
\<close>

lemma distinct_members_new:
  "distinct (members (handlers_of (fst (new_R1Messaging r)) (snd (new_R1Messaging r))))"
  by (simp add: new_R1Messaging_def initializeMessageHandler_def handlers_of_def members_def Let_def)

lemma distinct_members_perform:
  "distinct (members (handlers_of this r)) \<Longrightarrow> distinct (members (handlers_of this (perform c r)))"
  by (cases c) (simp_all add: registration_handlers distinct_members_kept)

lemma distinct_members_guarded_call:
  assumes "distinct (members (handlers_of this r))"
  shows "distinct (members (handlers_of this (guarded_call B e h r)))"
proof -
  have "distinct (members (handlers_of this (fold perform cs r)))" for cs
    using assms by (induction cs arbitrary: r) (simp_all add: distinct_members_perform)
  then show ?thesis by (simp add: guarded_call_handlers)
qed

lemma delivery_arguments:
  assumes "onPluginMessage r = Some this"
      and "host_delivers fuel B (Some d) r = Some (thrown, r')"
  shows "thrown = None \<and> (\<exists>hs. invocations r' = invocations r @ map (\<lambda>h. (h, enhance d)) hs)"
proof -
  have t: "thrown = None"
    and run: "forEach fuel this (guarded_call B (enhance d)) 0 r = Some r'"
    using delivery_result [OF assms] by simp_all
  obtain hs where "r' = fold (guarded_call B (enhance d)) hs r"
    using forEach_guarded_run [OF run] by (elim exE conjE)
  then have "invocations r' = invocations r @ map (\<lambda>h. (h, enhance d)) hs"
    by (simp add: fold_guarded_invocations)
  with t show ?thesis by blast
qed

lemma delivery_argument:
  assumes "onPluginMessage r = Some this"
      and "host_delivers fuel B (Some d) r = Some (thrown, r')"
      and "call \<in> set (drop (length (invocations r)) (invocations r'))"
  shows "thrown = None \<and> snd call = enhance d"
  using delivery_arguments [OF assms(1,2)] assms(3) by auto

lemma calls_unique:
  "invocations r @ map (\<lambda>h. (h, e)) hs = invocations r @ map (\<lambda>h. (h, e)) hs' \<Longrightarrow> hs = hs'"
proof -
  assume "invocations r @ map (\<lambda>h. (h, e)) hs = invocations r @ map (\<lambda>h. (h, e)) hs'"
  then have "map fst (map (\<lambda>h. (h, e)) hs) = map fst (map (\<lambda>h. (h, e)) hs')" by simp
  then show ?thesis by (simp add: comp_def)
qed

lemma forEach_guarded_run_from:
  assumes run: "forEach n this (guarded_call B e) idx r = Some r'"
  shows "\<exists>hs. r' = fold (guarded_call B e) hs r
        \<and> evolves (handlers_of this r) (handlers_of this r')
        \<and> (\<forall>k h. idx \<le> k \<longrightarrow> k < length (handlers_of this r') \<longrightarrow> handlers_of this r' ! k = Some h \<longrightarrow> h \<in> set hs)"
proof -
  have ev: "\<And>h r. evolves (handlers_of this r) (handlers_of this (guarded_call B e h r))"
    by (rule evolves_guarded_call)
  have "\<exists>hs. r' = fold (guarded_call B e) hs r
        \<and> evolves (handlers_of this r) (handlers_of this r')
        \<and> (\<forall>p<length hs. Some (hs ! p) \<in> set (handlers_of this (fold (guarded_call B e) (take p hs) r)))
        \<and> (\<forall>k h. idx \<le> k \<longrightarrow> k < length (handlers_of this r') \<longrightarrow> handlers_of this r' ! k = Some h \<longrightarrow> h \<in> set hs)
        \<and> (\<forall>k l a b. idx \<le> k \<longrightarrow> k < l \<longrightarrow> l < length (handlers_of this r') \<longrightarrow>
               handlers_of this r' ! k = Some a \<longrightarrow> handlers_of this r' ! l = Some b \<longrightarrow>
               (\<exists>x y z. hs = x @ a # y @ b # z))"
    by (rule forEach_run [where f = "guarded_call B e" and this = this, OF ev run])
  then obtain hs where a: "r' = fold (guarded_call B e) hs r"
    and b: "evolves (handlers_of this r) (handlers_of this r')"
    and c: "\<forall>k h. idx \<le> k \<longrightarrow> k < length (handlers_of this r') \<longrightarrow> handlers_of this r' ! k = Some h \<longrightarrow> h \<in> set hs"
    by (elim exE conjE)
  show ?thesis by (rule exI [of _ hs]) (intro conjI a b c)
qed

lemma distinct_members_nth:
  assumes d: "distinct (members es)"
      and ij: "i \<noteq> j" "i < length es" "j < length es"
      and a: "es ! i = Some a" and b: "es ! j = Some b"
  shows "a \<noteq> b"
proof (cases "i < j")
  case True
  from members_in_order [OF True ij(3) a b] obtain x y z where "members es = x @ a # y @ b # z"
    by blast
  with d show ?thesis by auto
next
  case False
  then have "j < i" using ij(1) by simp
  from members_in_order [OF this ij(2) b a] obtain x y z where "members es = x @ b # y @ a # z"
    by blast
  with d show ?thesis by auto
qed



lemma invoked_once:
  "forEach n this (guarded_call B e) idx r = Some r' \<Longrightarrow>
   invocations r' = invocations r @ map (\<lambda>h. (h, e)) hs \<Longrightarrow>
   distinct (members (handlers_of this r)) \<Longrightarrow>
   k < length (handlers_of this r) \<Longrightarrow>
   (\<forall>p\<le>length hs. handlers_of this (fold (guarded_call B e) (take p hs) r) ! k = Some h) \<Longrightarrow>
   count_list hs h = (if idx \<le> k then 1 else 0)"
proof (induction n arbitrary: idx r hs)
  case 0
  then show ?case by (simp split: if_splits)
next
  case (Suc n)
  let ?f = "guarded_call B e"
  let ?es = "handlers_of this r"
  have sk: "?es ! k = Some h" using Suc.prems(5) by (auto dest: spec [of _ 0])
  show ?case
  proof (cases "idx < length ?es")
    case False
    then show ?thesis using Suc.prems(1,2,4) by simp
  next
    case True
    show ?thesis
    proof (cases "?es ! idx")
      case None
      then have ne: "idx \<noteq> k" using sk by auto
      have run: "forEach n this ?f (Suc idx) r = Some r'"
        using Suc.prems(1) True None by simp
      have "count_list hs h = (if Suc idx \<le> k then 1 else 0)"
        by (rule Suc.IH [OF run Suc.prems(2) Suc.prems(3) Suc.prems(4) Suc.prems(5)])
      then show ?thesis using ne by (simp add: Suc_le_eq less_le)
    next
      case (Some h0)
      let ?r1 = "?f h0 r"
      have run: "forEach n this ?f (Suc idx) ?r1 = Some r'"
        using Suc.prems(1) True Some by simp
      from forEach_guarded_run_from [OF run] obtain hs1 where r': "r' = fold ?f hs1 ?r1"
        by (elim exE conjE)
      have "invocations r' = invocations r @ map (\<lambda>h. (h, e)) (h0 # hs1)"
        unfolding r' by (simp add: fold_guarded_invocations guarded_call_invocations)
      with Suc.prems(2) have hs: "hs = h0 # hs1" by (metis calls_unique)
      have inv1: "invocations r' = invocations ?r1 @ map (\<lambda>h. (h, e)) hs1"
        unfolding r' by (rule fold_guarded_invocations)
      have wf1: "distinct (members (handlers_of this ?r1))"
        using Suc.prems(3) by (rule distinct_members_guarded_call)
      have ev1: "evolves ?es (handlers_of this ?r1)" by (rule evolves_guarded_call)
      have len1: "k < length (handlers_of this ?r1)"
        using Suc.prems(4) evolves_length [OF ev1] by simp
      have H: "\<forall>p\<le>length hs1. handlers_of this (fold ?f (take p hs1) ?r1) ! k = Some h"
      proof (intro allI impI)
        fix p assume "p \<le> length hs1"
        then have "Suc p \<le> length hs" using hs by simp
        with Suc.prems(5) have "handlers_of this (fold ?f (take (Suc p) hs) r) ! k = Some h" by blast
        then show "handlers_of this (fold ?f (take p hs1) ?r1) ! k = Some h" by (simp add: hs)
      qed
      have ih: "count_list hs1 h = (if Suc idx \<le> k then 1 else 0)"
        by (rule Suc.IH [OF run inv1 wf1 len1 H])
      show ?thesis
      proof (cases "idx = k")
        case True
        then have "h0 = h" using Some sk by simp
        then show ?thesis using ih True by (simp add: hs)
      next
        case False
        have "h0 \<noteq> h"
          using distinct_members_nth [OF Suc.prems(3) False \<open>idx < length ?es\<close> Suc.prems(4) Some sk] .
        then show ?thesis using ih False by (simp add: hs Suc_le_eq less_le)
      qed
    qed
  qed
qed

lemma invoked_once_in_delivery:
  assumes slot: "onPluginMessage r = Some this"
      and wf: "distinct (members (handlers_of this r))"
      and run: "host_delivers fuel B (Some d) r = Some (None, r')"
      and inv: "invocations r' = invocations r @ map (\<lambda>g. (g, enhance d)) hs"
      and stays: "stays_registered this B (enhance d) r hs h"
  shows "count_list hs h = 1"
proof -
  have fe: "forEach fuel this (guarded_call B (enhance d)) 0 r = Some r'"
    using delivery_result [OF slot run] by simp
  from stays obtain k where k: "k < length (handlers_of this r)"
    and H: "\<forall>p\<le>length hs. handlers_of this (fold (guarded_call B (enhance d)) (take p hs) r) ! k = Some h"
    unfolding stays_registered_def by (elim exE conjE)
  from invoked_once [OF fe inv wf k H] show ?thesis by simp
qed

section \<open>The claims about sending\<close>

text \<open>
  C1. With the host transport present, \<open>sendMessage\<close> posts exactly one string to it (the
  list of posted strings grows by one entry, nothing else in the process changes) and the
  promise is fulfilled. That string parses as a JSON object whose properties have distinct
  names and are, name for name, the \<^verbatim>\<open>message\<close> and the fields that \<open>options\<close> has:
  nothing is missing and nothing is added.
\<close>

theorem sendMessage_forwards_envelope:
  assumes "PluginMessageHandler r = Some posted"
  shows "\<exists>text fields.
           sendMessage msg options r
             = (Returns (Settled Fulfilled), r\<lparr>PluginMessageHandler := Some (posted @ [text])\<rparr>)
         \<and> JSON_parse text = Inr (JObject fields)
         \<and> distinct (map fst fields)
         \<and> map_of fields = envelope msg options"
proof -
  let ?p = "\<lparr>wantsR1Response = wantsR1Response options,
             wantsJournalEntry = wantsJournalEntry options,
             useLLM = useLLM options, message = msg\<rparr>"
  have "sendMessage msg options r
          = (Returns (Settled Fulfilled), r\<lparr>PluginMessageHandler := Some (posted @ [JSON_stringify ?p])\<rparr>)"
    using assms by (simp add: sendMessage_def sendMessage_body_def async_return_def)
  moreover have "JSON_parse (JSON_stringify ?p) = Inr (JObject (properties ?p))"
    by (rule JSON_parse_stringify)
  moreover have "distinct (map fst (properties ?p))" by (rule distinct_properties)
  moreover have "map_of (properties ?p) = envelope msg options" by (rule map_of_properties)
  ultimately show ?thesis by blast
qed

theorem sendMessage_forwards_envelope_witness:
  "PluginMessageHandler host_runtime = Some [] \<and>
   (\<exists>text fields.
      sendMessage ''hi'' \<lparr>wantsR1Response = None, wantsJournalEntry = Some False, useLLM = Some True\<rparr> host_runtime
        = (Returns (Settled Fulfilled), host_runtime\<lparr>PluginMessageHandler := Some [text]\<rparr>)
    \<and> JSON_parse text = Inr (JObject fields)
    \<and> distinct (map fst fields)
    \<and> map_of fields = envelope ''hi'' \<lparr>wantsR1Response = None, wantsJournalEntry = Some False, useLLM = Some True\<rparr>)"
proof -
  have t: "PluginMessageHandler host_runtime = Some []" by (simp add: host_runtime_def)
  show ?thesis
    using t sendMessage_forwards_envelope [OF t, of "''hi''"
        "\<lparr>wantsR1Response = None, wantsJournalEntry = Some False, useLLM = Some True\<rparr>"]
    by simp
qed

text \<open>
  C6, as the code has it. With the host transport absent, no call of \<open>sendMessage\<close> or
  of its wrappers \<open>askLLM\<close>, \<open>askLLMSpeak\<close> and \<open>askLLMJSON\<close> throws: each returns a
  promise that is rejected with the error of the missing transport. The promise of
  \<open>sendMessage\<close> is rejected already as the call returns; the promise of a wrapper is
  pending as the call returns and is rejected afterwards. The process is left exactly as
  it was: nothing is posted and no state changes.
\<close>

theorem no_transport_no_send:
  assumes "PluginMessageHandler r = None"
  shows "sendMessage msg options r = (Returns (Settled (Rejected TransportUnavailable)), r)
       \<and> askLLM msg llm r = (Returns (Pending (Rejected TransportUnavailable)), r)
       \<and> askLLMSpeak msg saveToJournal r = (Returns (Pending (Rejected TransportUnavailable)), r)
       \<and> askLLMJSON msg llm r = (Returns (Pending (Rejected TransportUnavailable)), r)"
  using assms
  by (simp add: sendMessage_def sendMessage_body_def async_return_def await_last_def
      askLLM_def askLLMSpeak_def askLLMJSON_def Let_def)

theorem no_transport_no_send_witness:
  "PluginMessageHandler browser_tab = None
   \<and> sendMessage ''hi'' \<lparr>wantsR1Response = None, wantsJournalEntry = None, useLLM = None\<rparr> browser_tab
       = (Returns (Settled (Rejected TransportUnavailable)), browser_tab)
   \<and> askLLM ''hi'' \<lparr>wantsR1Response = None, wantsJournalEntry = None\<rparr> browser_tab
       = (Returns (Pending (Rejected TransportUnavailable)), browser_tab)
   \<and> askLLMSpeak ''hi'' False browser_tab
       = (Returns (Pending (Rejected TransportUnavailable)), browser_tab)
   \<and> askLLMJSON ''hi'' \<lparr>wantsR1Response = None, wantsJournalEntry = None\<rparr> browser_tab
       = (Returns (Pending (Rejected TransportUnavailable)), browser_tab)"
proof -
  have t: "PluginMessageHandler browser_tab = None" by (simp add: browser_tab_def)
  show ?thesis
    using t no_transport_no_send [OF t, of "''hi''"
        "\<lparr>wantsR1Response = None, wantsJournalEntry = None, useLLM = None\<rparr>"
        "\<lparr>wantsR1Response = None, wantsJournalEntry = None\<rparr>" False]
    by simp
qed

text \<open>
  C6 as the spec states it has the failure be synchronous and immediate. Outside the
  host, the call of \<open>sendMessage\<close> does not throw the error but returns a promise, and
  the promise that \<open>askLLM\<close> returns is not yet rejected as the call returns.
\<close>

theorem synchronous_failure_counterexample:
  "PluginMessageHandler browser_tab = None
   \<and> fst (sendMessage ''hi'' \<lparr>wantsR1Response = None, wantsJournalEntry = None, useLLM = None\<rparr> browser_tab)
       \<noteq> Throws TransportUnavailable
   \<and> fst (askLLM ''hi'' \<lparr>wantsR1Response = None, wantsJournalEntry = None\<rparr> browser_tab)
       = Returns (Pending (Rejected TransportUnavailable))"
  by (simp add: browser_tab_def sendMessage_def sendMessage_body_def async_return_def
      await_last_def askLLM_def Let_def)

text \<open>
  C7. \<open>askLLMJSON\<close> hands the text to \<open>askLLM\<close> unchanged when the four characters
  \<^verbatim>\<open>JSON\<close> occur in it somewhere, in exactly this upper-case spelling, and otherwise
  with the sentence asking for a valid JSON object appended; the options go through as
  they are.
\<close>

theorem askLLMJSON_delegates:
  "((\<exists>xs ys. msg = xs @ ''JSON'' @ ys) \<longrightarrow> askLLMJSON msg options r = askLLM msg options r) \<and>
   (\<not> (\<exists>xs ys. msg = xs @ ''JSON'' @ ys) \<longrightarrow>
      askLLMJSON msg options r = askLLM (msg @ ''. Please respond with a valid JSON object.'') options r)"
  by (simp add: askLLMJSON_def String_includes_iff await_last_askLLM)

theorem askLLMJSON_delegates_witness:
  "askLLMJSON ''Respond in JSON please'' \<lparr>wantsR1Response = None, wantsJournalEntry = None\<rparr> host_runtime
     = askLLM ''Respond in JSON please'' \<lparr>wantsR1Response = None, wantsJournalEntry = None\<rparr> host_runtime
   \<and> askLLMJSON ''List 3 facts'' \<lparr>wantsR1Response = None, wantsJournalEntry = None\<rparr> host_runtime
     = askLLM ''List 3 facts. Please respond with a valid JSON object.''
         \<lparr>wantsR1Response = None, wantsJournalEntry = None\<rparr> host_runtime"
proof -
  have "''Respond in JSON please'' = ''Respond in '' @ ''JSON'' @ '' please''" by simp
  then have a: "\<exists>xs ys. ''Respond in JSON please'' = xs @ ''JSON'' @ ys" by blast
  have b: "\<not> (\<exists>xs ys. ''List 3 facts'' = xs @ ''JSON'' @ ys)"
    using String_includes_iff [of "''List 3 facts''" "''JSON''"] by simp
  show ?thesis
    using a b
      askLLMJSON_delegates [of "''Respond in JSON please''"
        "\<lparr>wantsR1Response = None, wantsJournalEntry = None\<rparr>" host_runtime]
      askLLMJSON_delegates [of "''List 3 facts''"
        "\<lparr>wantsR1Response = None, wantsJournalEntry = None\<rparr>" host_runtime]
    by simp
qed

section \<open>The claims about deliveries\<close>

text \<open>
  C9. When the host calls the installed closure with \<^verbatim>\<open>null\<close> or \<^verbatim>\<open>undefined\<close>, reading
  its \<^verbatim>\<open>data\<close> field fails; the failure is caught by the outer \<^verbatim>\<open>try\<close>, written to the
  console, and the closure returns normally without calling a handler. Whatever the
  argument, the handlers and the bound, the closure never throws to the host.
\<close>

theorem dispatch_fault_is_swallowed:
  assumes "onPluginMessage r = Some this"
  shows "host_delivers fuel B None r
           = Some (None, console_error ''Error processing plugin message:'' TypeError r)
       \<and> (\<forall>arg error r'. host_delivers fuel B arg r \<noteq> Some (Some error, r'))"
  using assms
  by (auto simp: host_delivers_def plugin_message_closure_def process_message_def
      split: option.splits prod.splits)

theorem dispatch_fault_is_swallowed_witness:
  "onPluginMessage started = Some 0
   \<and> host_delivers 0 quiet None started
       = Some (None, console_error ''Error processing plugin message:'' TypeError started)"
  using slot_started dispatch_fault_is_swallowed [OF slot_started, of 0 quiet]
  by simp

text \<open>
  C10. A delivery whose \<^verbatim>\<open>data\<close> field is the empty string gets \<^verbatim>\<open>parsedData\<close>
  undefined, as a delivery without the field does: the empty string is falsy, so the
  decoding is not attempted and the fallback to the raw string is not reached. Every
  handler called in such a delivery receives \<^verbatim>\<open>parsedData\<close> undefined.
\<close>

theorem empty_data_is_undefined:
  assumes "data d = Some []"
  shows "parsedData (enhance d) = None
       \<and> (\<forall>fuel B r this thrown r' call.
            onPluginMessage r = Some this \<and> host_delivers fuel B (Some d) r = Some (thrown, r')
              \<and> call \<in> set (drop (length (invocations r)) (invocations r'))
            \<longrightarrow> parsedData (snd call) = None)"
proof -
  have e: "parsedData (enhance d) = None"
    using assms by (simp add: enhance_def decode_def)
  have "parsedData (snd call) = None"
    if "onPluginMessage r = Some this \<and> host_delivers fuel B (Some d) r = Some (thrown, r')
        \<and> call \<in> set (drop (length (invocations r)) (invocations r'))"
    for fuel B r this thrown r' call
    using that delivery_argument [of r this fuel B d thrown r' call] e by auto
  with e show ?thesis by blast
qed

theorem empty_data_is_undefined_witness:
  "data (delivery (Some [])) = Some []
   \<and> parsedData (enhance (delivery (Some []))) = None
   \<and> onPluginMessage (onMessage 0 7 started) = Some 0
   \<and> (\<exists>r' e. host_delivers 1 quiet (Some (delivery (Some []))) (onMessage 0 7 started) = Some (None, r')
            \<and> drop (length (invocations (onMessage 0 7 started))) (invocations r') = [(7, e)]
            \<and> parsedData e = None)"
proof -
  let ?r = "onMessage 0 7 started"
  let ?d = "delivery (Some [])"
  have d: "data ?d = Some []" by (simp add: delivery_def)
  note inst = empty_data_is_undefined [OF d]
  have slot: "onPluginMessage ?r = Some 0" by (simp add: run_simps)
  have "\<exists>r'. host_delivers 1 quiet (Some ?d) ?r = Some (None, r')
      \<and> drop (length (invocations ?r)) (invocations r') = [(7, enhance ?d)]"
    by (simp add: run_simps quiet_def)
  then obtain r' where run: "host_delivers 1 quiet (Some ?d) ?r = Some (None, r')"
    and inv: "drop (length (invocations ?r)) (invocations r') = [(7, enhance ?d)]"
    by blast
  have "(7, enhance ?d) \<in> set (drop (length (invocations ?r)) (invocations r'))"
    unfolding inv by simp
  with inst slot run have "parsedData (snd (7::nat, enhance ?d)) = None" by blast
  then have "parsedData (enhance ?d) = None" by simp
  with d inst slot run inv show ?thesis by blast
qed

text \<open>
  C5, as the code has it. The \<^verbatim>\<open>parsedData\<close> of the enhanced delivery is undefined when
  \<^verbatim>\<open>data\<close> is absent or the empty string; the decoded document when \<^verbatim>\<open>data\<close> is a non-empty string that
  parses as JSON; and the string itself when \<^verbatim>\<open>data\<close> is a non-empty string that does not
  parse. Every handler called in the delivery receives this enhanced delivery, and the
  closure throws nothing to the host.
\<close>

theorem parsedData_of_delivery:
  "(data d = None \<longrightarrow> parsedData (enhance d) = None) \<and>
   (data d = Some [] \<longrightarrow> parsedData (enhance d) = None) \<and>
   (\<forall>s v. data d = Some s \<and> s \<noteq> [] \<and> JSON_parse s = Inr v \<longrightarrow> parsedData (enhance d) = Some v) \<and>
   (\<forall>s error. data d = Some s \<and> s \<noteq> [] \<and> JSON_parse s = Inl error \<longrightarrow>
      parsedData (enhance d) = Some (JString (units s))) \<and>
   (\<forall>fuel B r this thrown r' call.
      onPluginMessage r = Some this \<and> host_delivers fuel B (Some d) r = Some (thrown, r')
        \<and> call \<in> set (drop (length (invocations r)) (invocations r'))
      \<longrightarrow> thrown = None \<and> snd call = enhance d)"
proof -
  have "thrown = None \<and> snd call = enhance d"
    if "onPluginMessage r = Some this \<and> host_delivers fuel B (Some d) r = Some (thrown, r')
        \<and> call \<in> set (drop (length (invocations r)) (invocations r'))"
    for fuel B r this thrown r' call
    using that delivery_argument [of r this fuel B d thrown r' call] by blast
  then show ?thesis
    by (simp add: enhance_def decode_def)
qed

theorem parsedData_of_delivery_witness:
  \<open>parsedData (enhance (delivery None)) = None
   \<and> parsedData (enhance (delivery (Some ''''))) = None
   \<and> parsedData (enhance (delivery (Some ''{"a":1}''))) = Some (JObject [(units ''a'', JNumber 1)])
   \<and> parsedData (enhance (delivery (Some
          [dquote, backslash, CHR ''u'', CHR ''0'', CHR ''1'', CHR ''0'', CHR ''0'', dquote])))
        = Some (JString [256])
   \<and> parsedData (enhance (delivery (Some ''plain text''))) = Some (JString (units ''plain text''))
   \<and> onPluginMessage (onMessage 0 7 started) = Some 0
   \<and> (\<exists>r' e. host_delivers 1 quiet (Some (delivery (Some ''plain text''))) (onMessage 0 7 started)
                 = Some (None, r')
            \<and> drop (length (invocations (onMessage 0 7 started))) (invocations r') = [(7, e)]
            \<and> parsedData e = Some (JString (units ''plain text'')))\<close>
proof -
  let ?r = "onMessage 0 7 started"
  let ?d = "delivery (Some ''plain text'')"
  let ?u = "[dquote, backslash, CHR ''u'', CHR ''0'', CHR ''1'', CHR ''0'', CHR ''0'', dquote]"
  have a: \<open>JSON_parse ''{"a":1}'' = Inr (JObject [(units ''a'', JNumber 1)])\<close> by code_simp
  have b: "JSON_parse ''plain text'' = Inl SyntaxError" by code_simp
  have c: "JSON_parse ?u = Inr (JString [256])" by code_simp
  have n: "?u \<noteq> []" by simp
  have p: \<open>parsedData (enhance (delivery None)) = None
      \<and> parsedData (enhance (delivery (Some ''''))) = None
      \<and> parsedData (enhance (delivery (Some ''{"a":1}''))) = Some (JObject [(units ''a'', JNumber 1)])
      \<and> parsedData (enhance (delivery (Some ?u))) = Some (JString [256])
      \<and> parsedData (enhance ?d) = Some (JString (units ''plain text''))\<close>
    using a b c n
      parsedData_of_delivery [of "delivery None"]
      parsedData_of_delivery [of "delivery (Some '''')"]
      parsedData_of_delivery [of \<open>delivery (Some ''{"a":1}'')\<close>]
      parsedData_of_delivery [of "delivery (Some ?u)"]
      parsedData_of_delivery [of ?d]
    by (simp add: delivery_def)
  have slot: "onPluginMessage ?r = Some 0" by (simp add: run_simps)
  have "\<exists>r'. host_delivers 1 quiet (Some ?d) ?r = Some (None, r')
      \<and> drop (length (invocations ?r)) (invocations r') = [(7, enhance ?d)]"
    by (simp add: run_simps quiet_def)
  then obtain r' where run: "host_delivers 1 quiet (Some ?d) ?r = Some (None, r')"
    and inv: "drop (length (invocations ?r)) (invocations r') = [(7, enhance ?d)]"
    by blast
  show ?thesis
    using p slot run inv by blast
qed

text \<open>
  C5 as the spec states it gives the raw string for every \<^verbatim>\<open>data\<close> that is present and
  does not parse. The empty string is present and does not parse, yet its
  \<^verbatim>\<open>parsedData\<close> is not the empty string.
\<close>

theorem parsedData_of_empty_data_counterexample:
  "data (delivery (Some [])) = Some []
   \<and> JSON_parse [] = Inl SyntaxError
   \<and> parsedData (enhance (delivery (Some []))) \<noteq> Some (JString (units []))"
  by (simp add: delivery_def enhance_def decode_def JSON_parse_def skip_ws_def)

text \<open>
  C2, as the code has it. The fan-out iterates the live set, not a copy taken when the
  delivery begins. For a delivery that returns, with \<open>hs\<close> the handlers it called in
  order: each handler was a member of the set at the moment of its call, that is, in the
  state reached by the calls before it (so a handler removed earlier in the same fan-out
  and not added again is not called); and every handler that is a member when the
  fan-out ends has been called during it (so a handler added during the fan-out, and not
  removed again, is called in the same delivery). A change made by a handler thus takes
  effect for the current delivery already.
\<close>

theorem live_fan_out:
  assumes "onPluginMessage r = Some this"
      and "host_delivers fuel B (Some d) r = Some (thrown, r')"
  shows "\<exists>hs. invocations r' = invocations r @ map (\<lambda>h. (h, enhance d)) hs
           \<and> (\<forall>p<length hs.
                 Some (hs ! p) \<in> set (handlers_of this (fold (guarded_call B (enhance d)) (take p hs) r)))
           \<and> (\<forall>h. Some h \<in> set (handlers_of this r') \<longrightarrow> h \<in> set hs)"
proof -
  have run: "forEach fuel this (guarded_call B (enhance d)) 0 r = Some r'"
    using delivery_result [OF assms] by simp
  obtain hs where hs: "r' = fold (guarded_call B (enhance d)) hs r"
    and b: "\<forall>p<length hs. Some (hs ! p) \<in> set (handlers_of this (fold (guarded_call B (enhance d)) (take p hs) r))"
    and k: "\<forall>k h. 0 \<le> k \<longrightarrow> k < length (handlers_of this r') \<longrightarrow> handlers_of this r' ! k = Some h \<longrightarrow> h \<in> set hs"
    using forEach_guarded_run [OF run] by (elim exE conjE)
  have a: "invocations r' = invocations r @ map (\<lambda>h. (h, enhance d)) hs"
    unfolding hs by (rule fold_guarded_invocations)
  have c: "\<forall>h. Some h \<in> set (handlers_of this r') \<longrightarrow> h \<in> set hs"
  proof (intro allI impI)
    fix h assume "Some h \<in> set (handlers_of this r')"
    then obtain n where "n < length (handlers_of this r')" "handlers_of this r' ! n = Some h"
      by (auto simp: in_set_conv_nth)
    then show "h \<in> set hs" using k by simp
  qed
  show ?thesis
    by (rule exI [of _ hs]) (intro conjI a b c)
qed

theorem live_fan_out_witness:
  "onPluginMessage (onMessage 0 1 started) = Some 0
   \<and> (\<exists>r' hs.
        host_delivers 2 registers_during_fan_out (Some (delivery None)) (onMessage 0 1 started) = Some (None, r')
      \<and> invocations r' = invocations (onMessage 0 1 started) @ map (\<lambda>h. (h, enhance (delivery None))) hs
      \<and> (\<forall>p<length hs.
            Some (hs ! p) \<in> set (handlers_of 0
              (fold (guarded_call registers_during_fan_out (enhance (delivery None))) (take p hs)
                 (onMessage 0 1 started))))
      \<and> (\<forall>h. Some h \<in> set (handlers_of 0 r') \<longrightarrow> h \<in> set hs))"
proof -
  have slot: "onPluginMessage (onMessage 0 1 started) = Some 0"
    by (simp add: run_simps)
  have "\<exists>r'. host_delivers 2 registers_during_fan_out (Some (delivery None)) (onMessage 0 1 started) = Some (None, r')"
    by (simp add: run_simps registers_during_fan_out_def)
  then obtain r' where run:
    "host_delivers 2 registers_during_fan_out (Some (delivery None)) (onMessage 0 1 started) = Some (None, r')"
    by blast
  from live_fan_out [OF slot run] slot run show ?thesis by blast
qed

text \<open>
  C2 as the spec states it has the handlers called be exactly those registered when the
  delivery begins. With handler 1 alone registered and adding handler 2 when called, the
  delivery calls 1 and then 2; with 1 and 2 registered and 1 removing 2 when called, the
  delivery calls 1 only.
\<close>

theorem snapshot_fan_out_counterexample:
  "members (handlers_of 0 (onMessage 0 1 started)) = [1]
   \<and> invoked_in (onMessage 0 1 started)
        (host_delivers 2 registers_during_fan_out (Some (delivery None)) (onMessage 0 1 started))
       = Some [1, 2]
   \<and> members (handlers_of 0 (onMessage 0 2 (onMessage 0 1 started))) = [1, 2]
   \<and> invoked_in (onMessage 0 2 (onMessage 0 1 started))
        (host_delivers 2 unregisters_during_fan_out (Some (delivery None))
           (onMessage 0 2 (onMessage 0 1 started)))
       = Some [1]"
  by (simp add: run_simps registers_during_fan_out_def unregisters_during_fan_out_def)




text \<open>
  C8. Registering a handler that was just registered has no further effect: the set and
  every other part of the state are as after the first registration, so every later
  delivery proceeds exactly as it does after registering once. The handler is a member
  of the set once, not twice (the members of a set built by the methods are distinct),
  and every delivery throughout which it stays registered calls it exactly once,
  whatever else the handlers do. A delivery does return when no handler registers or
  unregisters handlers during it and the bound exceeds the number of entries.
\<close>

theorem registering_twice_is_registering_once:
  assumes slot: "onPluginMessage r = Some this"
      and wf: "distinct (members (handlers_of this r))"
  shows "onMessage this h (onMessage this h r) = onMessage this h r
       \<and> (\<forall>fuel B arg. host_delivers fuel B arg (onMessage this h (onMessage this h r))
                        = host_delivers fuel B arg (onMessage this h r))
       \<and> count_list (members (handlers_of this (onMessage this h (onMessage this h r)))) h = 1
       \<and> (\<forall>n T m r' hs.
            host_delivers n T (Some m) (onMessage this h (onMessage this h r)) = Some (None, r')
          \<and> invocations r' = invocations r @ map (\<lambda>g. (g, enhance m)) hs
          \<and> stays_registered this T (enhance m) (onMessage this h (onMessage this h r)) hs h
          \<longrightarrow> count_list hs h = 1)
       \<and> ((\<forall>g hist. fst (B g (enhance d) hist) = []) \<and> length (handlers_of this r) < fuel \<longrightarrow>
            (\<exists>r'. host_delivers fuel B (Some d) (onMessage this h (onMessage this h r)) = Some (None, r')
                 \<and> count_list (map fst (drop (length (invocations r)) (invocations r'))) h = 1))"
proof -
  let ?r = "onMessage this h r"
  have twice: "onMessage this h ?r = ?r" by (rule onMessage_twice)
  have slot': "onPluginMessage ?r = Some this" using slot by (simp add: registration_frame)
  have dist: "distinct (members (handlers_of this ?r))"
    using wf by (simp add: registration_handlers distinct_members_kept)
  have "h \<in> set (members (handlers_of this ?r))"
    by (simp add: registration_handlers members_Set_add)
  then have once: "count_list (members (handlers_of this ?r)) h = 1"
    using dist by (simp add: count_list_distinct)
  have called: "\<forall>n T m r' hs.
            host_delivers n T (Some m) ?r = Some (None, r')
          \<and> invocations r' = invocations r @ map (\<lambda>g. (g, enhance m)) hs
          \<and> stays_registered this T (enhance m) ?r hs h
          \<longrightarrow> count_list hs h = 1"
  proof (intro allI impI)
    fix n T m r' hs
    assume a: "host_delivers n T (Some m) ?r = Some (None, r')
          \<and> invocations r' = invocations r @ map (\<lambda>g. (g, enhance m)) hs
          \<and> stays_registered this T (enhance m) ?r hs h"
    then have run: "host_delivers n T (Some m) ?r = Some (None, r')"
      and inv: "invocations r' = invocations ?r @ map (\<lambda>g. (g, enhance m)) hs"
      and stays: "stays_registered this T (enhance m) ?r hs h"
      by (simp_all add: registration_frame)
    show "count_list hs h = 1"
      by (rule invoked_once_in_delivery [OF slot' dist run inv stays])
  qed
  have deliv: "\<exists>r'. host_delivers fuel B (Some d) ?r = Some (None, r')
                 \<and> count_list (map fst (drop (length (invocations r)) (invocations r'))) h = 1"
    if q: "(\<forall>g hist. fst (B g (enhance d) hist) = []) \<and> length (handlers_of this r) < fuel"
  proof -
    have quiet: "\<forall>g hist. fst (B g (enhance d) hist) = []" using q by simp
    have len: "length (handlers_of this ?r) \<le> fuel"
      using q by (simp add: registration_handlers Set_add_def)
    from quiet_delivery [of ?r this B d fuel, OF slot' quiet len] obtain r' where
      run: "host_delivers fuel B (Some d) ?r = Some (None, r')"
      and inv: "invocations r' = invocations ?r @ map (\<lambda>h. (h, enhance d)) (members (handlers_of this ?r))"
      by (elim exE conjE)
    have "count_list (map fst (drop (length (invocations r)) (invocations r'))) h = 1"
      using once by (simp add: inv registration_frame comp_def)
    with run show ?thesis by blast
  qed
  have deliv': "(\<forall>g hist. fst (B g (enhance d) hist) = []) \<and> length (handlers_of this r) < fuel \<longrightarrow>
            (\<exists>r'. host_delivers fuel B (Some d) ?r = Some (None, r')
                 \<and> count_list (map fst (drop (length (invocations r)) (invocations r'))) h = 1)"
    using deliv by blast
  show ?thesis
    unfolding twice by (intro conjI refl allI once called deliv')
qed

theorem registering_twice_is_registering_once_witness:
  "onPluginMessage started = Some 0
   \<and> distinct (members (handlers_of 0 started))
   \<and> onMessage 0 1 (onMessage 0 1 started) = onMessage 0 1 started
   \<and> handlers_of 0 (onMessage 0 1 (onMessage 0 1 started)) = [Some 1]
   \<and> (\<exists>r'. host_delivers 1 quiet (Some (delivery None)) (onMessage 0 1 (onMessage 0 1 started)) = Some (None, r')
          \<and> count_list (map fst (drop (length (invocations started)) (invocations r'))) 1 = 1)
   \<and> (\<exists>r' hs.
          host_delivers 2 registers_during_fan_out (Some (delivery None))
            (onMessage 0 1 (onMessage 0 1 started)) = Some (None, r')
        \<and> invocations r' = invocations started @ map (\<lambda>g. (g, enhance (delivery None))) hs
        \<and> length hs = 2
        \<and> count_list hs 1 = 1)"
proof -
  let ?r = "onMessage 0 1 started"
  let ?e = "enhance (delivery None)"
  let ?f = "guarded_call registers_during_fan_out ?e"
  let ?r' = "fold ?f [1, 2] (onMessage 0 1 ?r)"
  have wf: "distinct (members (handlers_of 0 started))" by (simp add: run_simps)
  have q: "(\<forall>g hist. fst (quiet g ?e hist) = []) \<and> length (handlers_of 0 started) < 1"
    by (simp add: quiet_def run_simps)
  have es: "handlers_of 0 ?r = [Some 1]" by (simp add: run_simps)
  note inst = registering_twice_is_registering_once [of started 0 1 quiet "delivery None" 1,
      OF slot_started wf]
  from inst have twice: "onMessage 0 1 ?r = ?r" by blast
  from inst q have quiet_run:
    "\<exists>r'. host_delivers 1 quiet (Some (delivery None)) (onMessage 0 1 ?r) = Some (None, r')
          \<and> count_list (map fst (drop (length (invocations started)) (invocations r'))) 1 = 1"
    by blast
  have es': "handlers_of 0 (onMessage 0 1 ?r) = [Some 1]"
    unfolding twice by (rule es)
  have slot: "onPluginMessage (onMessage 0 1 ?r) = Some 0" by (simp add: run_simps)
  have after1: "handlers_of 0 (?f 1 (onMessage 0 1 ?r)) = [Some 1, Some 2]"
    unfolding twice by (simp add: run_simps registers_during_fan_out_def)
  have after2: "handlers_of 0 (?f 2 (?f 1 (onMessage 0 1 ?r))) = [Some 1, Some 2]"
    unfolding twice by (simp add: run_simps registers_during_fan_out_def)
  have run: "host_delivers 2 registers_during_fan_out (Some (delivery None)) (onMessage 0 1 ?r)
               = Some (None, ?r')"
    by (simp add: run_simps registers_during_fan_out_def)
  have inv: "invocations ?r' = invocations started @ map (\<lambda>g. (g, ?e)) [1, 2]"
    by (simp add: fold_guarded_invocations guarded_call_invocations registration_frame)
  have stays: "stays_registered 0 registers_during_fan_out ?e (onMessage 0 1 ?r) [1, 2] 1"
    unfolding stays_registered_def
  proof (intro exI [of _ 0] conjI allI impI)
    show "0 < length (handlers_of 0 (onMessage 0 1 ?r))" unfolding es' by simp
  next
    fix p :: nat assume "p \<le> length [1::nat, 2]"
    then consider "p = 0" | "p = 1" | "p = 2" by (auto simp: le_Suc_eq)
    then show "handlers_of 0 (fold ?f (take p [1, 2]) (onMessage 0 1 ?r)) ! 0 = Some 1"
      by cases (simp_all add: run_simps registers_during_fan_out_def)
  qed
  from inst run inv stays have c: "count_list [1, 2] (1::nat) = 1" by blast
  have live: "\<exists>r' hs.
          host_delivers 2 registers_during_fan_out (Some (delivery None)) (onMessage 0 1 ?r) = Some (None, r')
        \<and> invocations r' = invocations started @ map (\<lambda>g. (g, ?e)) hs
        \<and> length hs = 2
        \<and> count_list hs 1 = 1"
    by (rule exI [of _ ?r'], rule exI [of _ "[1, 2]"]) (intro conjI run inv c, simp)
  show ?thesis
    by (intro conjI slot_started wf twice es' quiet_run live)
qed

text \<open>
  C3. What the code does when a second instance is constructed in a process that has a
  \<^verbatim>\<open>window\<close>: the flag that guards the initialisation belongs to the instance, so the
  second constructor assigns \<^verbatim>\<open>window.onPluginMessage\<close> again, with a closure over its own,
  empty set. A handler registered on the first instance is still a member of that
  instance's set, but the next delivery reaches no handler and leaves the process as it
  was.
\<close>

theorem second_instance_takes_over:
  assumes "window r"
  shows "case new_R1Messaging r of
           (a, r1) \<Rightarrow>
             (case new_R1Messaging (onMessage a h r1) of
                (b, r2) \<Rightarrow>
                  onPluginMessage r1 = Some a
                \<and> onPluginMessage r2 = Some b
                \<and> b \<noteq> a
                \<and> handlers_of a r2 = [Some h]
                \<and> host_delivers fuel B (Some d) r2 = Some (None, r2))"
  using assms
  by (simp add: new_R1Messaging_def initializeMessageHandler_def Let_def onMessage_def
      update_handlers_def handlers_of_def Set_add_def host_delivers_def plugin_message_closure_def
      process_message_def forEach_done)

theorem second_instance_takes_over_witness:
  "window host_runtime
   \<and> (case new_R1Messaging host_runtime of
        (a, r1) \<Rightarrow>
          (case new_R1Messaging (onMessage a 7 r1) of
             (b, r2) \<Rightarrow>
               onPluginMessage r1 = Some a
             \<and> onPluginMessage r2 = Some b
             \<and> b \<noteq> a
             \<and> handlers_of a r2 = [Some 7]
             \<and> host_delivers 1 quiet (Some (delivery (Some ''x''))) r2 = Some (None, r2)))"
proof -
  have w: "window host_runtime" by (simp add: host_runtime_def)
  show ?thesis
    using w second_instance_takes_over [OF w, of 7 1 quiet "delivery (Some ''x'')"] by simp
qed

end
